theory Spec2Isabelle
  imports Main "HOL-Library.Sublist" "HOL-Library.AList"
begin

section \<open>Hierarchical state nodes\<close>

text \<open>
  The embedding follows \<^verbatim>\<open>transitions/extensions/nesting.py\<close>.

  A \<^verbatim>\<open>NestedState\<close> carries its local name (\<^verbatim>\<open>_name\<close>), the flag
  \<^verbatim>\<open>ignore_invalid_triggers\<close> (which may be \<^verbatim>\<open>None\<close>) and the reference to its
  parent (which may be \<^verbatim>\<open>None\<close>). The run-time algorithms only read the parent
  link, so a node is modelled as the value of its parent chain: such a chain is
  finite and acyclic by construction. The field \<^verbatim>\<open>children\<close> is written by the
  constructor and by \<^verbatim>\<open>traverse\<close> but never read in this module; it is left
  out. The enter and exit callbacks belong to the base class \<^verbatim>\<open>State\<close>; a call
  of \<^verbatim>\<open>exit\<close> or \<^verbatim>\<open>enter\<close> on a node is recorded in a trace of hooks.
\<close>

datatype error = AttributeError | IndexError | TypeError | ValueError | MachineError string

datatype nested_state =
  NestedState (name' : string) (ignore_invalid_triggers : "bool option")
    (parent : "nested_state option")

datatype hook = Exit nested_state | Enter nested_state

definition separator :: string where
  "separator = ''.''"

fun level :: "nested_state \<Rightarrow> nat" where
  "level (NestedState n i None) = 0"
| "level (NestedState n i (Some p)) = level p + 1"

fun name :: "nested_state \<Rightarrow> string" where
  "name (NestedState n i None) = n"
| "name (NestedState n i (Some p)) = name p @ separator @ n"

text \<open>
  The parent chain of a node, the node itself first. It is not part of the
  source; the theorems use it to name the ancestors of a node.
\<close>

fun chain :: "nested_state \<Rightarrow> nested_state list" where
  "chain (NestedState n i None) = [NestedState n i None]"
| "chain (NestedState n i (Some p)) = NestedState n i (Some p) # chain p"

text \<open>
  The proper ancestors two nodes share: the longest common end of the two
  chains without the nodes themselves, the deepest ancestor first. Its length
  is the level of the deepest common ancestor plus one, and 0 when there is
  none.
\<close>

definition common_ancestors :: "nested_state \<Rightarrow> nested_state \<Rightarrow> nested_state list" where
  "common_ancestors s t =
     rev (longest_common_prefix (rev (tl (chain s))) (rev (tl (chain t))))"

text \<open>
  The first loop of \<^verbatim>\<open>exit_nested\<close>,
  \<^verbatim>\<open>while self.level != tmp_state.level: tmp_state = target_state.parent\<close>.
  The body assigns the parent of \<^verbatim>\<open>target_state\<close>, not of \<^verbatim>\<open>tmp_state\<close>. The loop
  need not terminate, so it is a partial function: \<open>None\<close> is "does not return".
  Reading \<^verbatim>\<open>.level\<close> of \<^verbatim>\<open>None\<close> raises.
\<close>

partial_function (option) align_loop ::
  "nested_state \<Rightarrow> nested_state \<Rightarrow> nested_state option \<Rightarrow> (error + nested_state) option"
where
  "align_loop self target_state tmp_state =
     (case tmp_state of
        None \<Rightarrow> Some (Inl AttributeError)
      | Some t \<Rightarrow>
          if level self \<noteq> level t then align_loop self target_state (parent target_state)
          else Some (Inr t))"

declare align_loop.simps [code]

lemma size_parent: "parent s = Some p \<Longrightarrow> size p < size s"
  by (cases s) simp

text \<open>
  The second loop of \<^verbatim>\<open>exit_nested\<close>: walk both chains upwards, firing the exit
  hook of \<^verbatim>\<open>tmp_self\<close>, until \<^verbatim>\<open>tmp_self\<close> is at level 0 or the two parents have the
  same qualified name. The result is the final \<^verbatim>\<open>tmp_self\<close> and the trace.
\<close>

function exit_loop ::
  "nested_state \<Rightarrow> nested_state \<Rightarrow> hook list \<Rightarrow> error + nested_state \<times> hook list"
where
  "exit_loop tmp_self tmp_state tr =
     (if level tmp_self > 0 then
        (case parent tmp_state of
           None \<Rightarrow> Inl AttributeError
         | Some state_parent \<Rightarrow>
             (case parent tmp_self of
                None \<Rightarrow> Inl AttributeError
              | Some self_parent \<Rightarrow>
                  if name state_parent \<noteq> name self_parent
                  then exit_loop self_parent state_parent (tr @ [Exit tmp_self])
                  else Inr (tmp_self, tr)))
      else Inr (tmp_self, tr))"
  by pat_completeness auto
termination
  by (relation "measure (\<lambda>(s, t, tr). size s)") (auto simp: size_parent)

declare exit_loop.simps [simp del]

text \<open>
  \<^verbatim>\<open>exit_nested(self, event_data, target_state)\<close>. The result is \<open>None\<close> when the
  call does not return, \<open>Some (Inl e)\<close> when it raises and
  \<open>Some (Inr (lvl, tr))\<close> when it returns \<open>lvl\<close> having fired the hooks \<open>tr\<close>.
\<close>

function exit_nested ::
  "nested_state \<Rightarrow> nested_state option \<Rightarrow> hook list \<Rightarrow> (error + nat \<times> hook list) option"
where
  "exit_nested self target_state tr =
     (if target_state \<noteq> None \<and> level (the target_state) > 0 \<and> level self > 0 then
        (if level self > level (the target_state) then
           (case parent self of
              None \<Rightarrow> Some (Inl AttributeError)
            | Some p \<Rightarrow> exit_nested p target_state (tr @ [Exit self]))
         else
           (case align_loop self (the target_state) target_state of
              None \<Rightarrow> None
            | Some (Inl e) \<Rightarrow> Some (Inl e)
            | Some (Inr tmp_state) \<Rightarrow>
                (case exit_loop self tmp_state tr of
                   Inl e \<Rightarrow> Some (Inl e)
                 | Inr (tmp_self, tr') \<Rightarrow> Some (Inr (level tmp_self, tr' @ [Exit tmp_self])))))
      else
        (case parent self of
           Some p \<Rightarrow> exit_nested p None (tr @ [Exit self])
         | None \<Rightarrow> Some (Inr (0, tr @ [Exit self]))))"
  by pat_completeness auto
termination
  by (relation "measure (\<lambda>(s, t, tr). size s)") (auto simp: size_parent)

declare exit_nested.simps [simp del]

text \<open>
  \<^verbatim>\<open>enter_nested(self, event_data, level)\<close>. The stop level is a Python integer or
  \<^verbatim>\<open>None\<close>. Calling \<^verbatim>\<open>enter_nested\<close> on a parent that is \<^verbatim>\<open>None\<close> raises.
\<close>

function enter_nested ::
  "nested_state \<Rightarrow> int option \<Rightarrow> hook list \<Rightarrow> error + hook list"
where
  "enter_nested self lvl tr =
     (if lvl \<noteq> None \<and> the lvl \<noteq> int (level self) then
        (case parent self of
           None \<Rightarrow> Inl AttributeError
         | Some p \<Rightarrow>
             (case enter_nested p lvl tr of
                Inl e \<Rightarrow> Inl e
              | Inr tr' \<Rightarrow> Inr (tr' @ [Enter self])))
      else Inr (tr @ [Enter self]))"
  by pat_completeness auto
termination
  by (relation "measure (\<lambda>(s, l, tr). size s)") (auto simp: size_parent)

declare enter_nested.simps [simp del]


section \<open>Machine, transitions and events\<close>

text \<open>
  A transition as \<^verbatim>\<open>traverse\<close> reads it: \<^verbatim>\<open>source\<close>, \<^verbatim>\<open>dest\<close> and the callback
  lists \<^verbatim>\<open>conditions\<close>, \<^verbatim>\<open>before\<close> and \<^verbatim>\<open>after\<close> (callbacks are named by
  strings). An event has its name and the table \<^verbatim>\<open>transitions\<close> from a source
  name to the transitions registered for it, in registration order. The
  entries of \<^verbatim>\<open>_buffered_transitions\<close> are dictionaries with the keys of a
  transition and \<^verbatim>\<open>trigger\<close>.
\<close>

record transition =
  source :: string
  dest :: string
  conditions :: "string list"
  before :: "string list"
  after :: "string list"

record event =
  ename :: string
  transitions :: "(string \<times> transition list) list"

record buffered = transition +
  trigger_name :: string

text \<open>
  An attribute of an object: a callable or \<^verbatim>\<open>None\<close> (\<open>Func\<close>), or a
  \<^verbatim>\<open>FunctionWrapper\<close>, which is given by its instance dictionary. Callables are
  named by the trigger they fire.
\<close>

datatype 'f attr = Func "'f option" | Wrap "(string \<times> 'f attr) list"

type_synonym 'f function_wrapper = "(string \<times> 'f attr) list"

text \<open>
  The machine: the registry \<^verbatim>\<open>states\<close> (an ordered dictionary from the name a
  state was registered under to the state), the dictionary \<^verbatim>\<open>events\<close>, the
  active state, the machine-wide default of \<^verbatim>\<open>ignore_invalid_triggers\<close>, the
  attributes bound on the model and \<^verbatim>\<open>_buffered_transitions\<close>. Two fields
  record what the machine does to its surroundings: \<open>hooks\<close>, the enter and
  exit hooks fired so far, and \<open>log\<close>, the warnings given to the logger.
\<close>

record machine =
  states :: "(string \<times> nested_state) list"
  events :: "(string \<times> event) list"
  current_state :: nested_state
  machine_ignore_invalid_triggers :: "bool option"
  model :: "(string \<times> string attr) list"
  buffered_transitions :: "buffered list"
  hooks :: "hook list"
  log :: "string list"

text \<open>
  Modelled from the spec: \<^verbatim>\<open>Machine.get_state\<close> of the flat engine (the module
  \<^verbatim>\<open>core\<close> is not under src/), the accessor of the "name to state registry".
  Looking up a name that is not registered raises.
\<close>

definition get_state :: "machine \<Rightarrow> string \<Rightarrow> error + nested_state" where
  "get_state m n = (case map_of (states m) n of None \<Rightarrow> Inl ValueError | Some s \<Rightarrow> Inr s)"

subsection \<open>NestedTransition\<close>

text \<open>
  \<^verbatim>\<open>NestedTransition._change_state\<close>: resolve the destination, exit from the
  active state towards it, make the destination the active state
  (\<^verbatim>\<open>set_state\<close>, the mutator of the flat engine), then enter the destination
  down from the level \<^verbatim>\<open>exit_nested\<close> returned. \<^verbatim>\<open>event_data.update()\<close> touches
  none of the fields modelled here.
\<close>

definition change_state :: "transition \<Rightarrow> machine \<Rightarrow> (error + machine) option" where
  "change_state t m =
     (case get_state m (dest t) of
        Inl e \<Rightarrow> Some (Inl e)
      | Inr dest_state \<Rightarrow>
          (case exit_nested (current_state m) (Some dest_state) (hooks m) of
             None \<Rightarrow> None
           | Some (Inl e) \<Rightarrow> Some (Inl e)
           | Some (Inr (lvl, tr)) \<Rightarrow>
               (case enter_nested dest_state (Some (int lvl)) tr of
                  Inl e \<Rightarrow> Some (Inl e)
                | Inr tr' \<Rightarrow> Some (Inr (m\<lparr>current_state := dest_state, hooks := tr'\<rparr>)))))"

text \<open>
  Modelled from the spec: \<^verbatim>\<open>Transition.execute\<close> of the flat engine (the module
  \<^verbatim>\<open>core\<close> is not under src/): "an \<^verbatim>\<open>execute(event) -> bool\<close> that evaluates guards
  and returns whether it fired". The outcome of a guard is the parameter
  \<open>check\<close>.
\<close>

definition execute ::
  "(string \<Rightarrow> machine \<Rightarrow> bool) \<Rightarrow> transition \<Rightarrow> machine \<Rightarrow> (error + bool \<times> machine) option"
where
  "execute check t m =
     (if list_all (\<lambda>c. check c m) (conditions t) then
        (case change_state t m of
           None \<Rightarrow> None
         | Some (Inl e) \<Rightarrow> Some (Inl e)
         | Some (Inr m') \<Rightarrow> Some (Inr (True, m')))
      else Some (Inr (False, m)))"

subsection \<open>NestedEvent\<close>

text \<open>
  The loop of \<^verbatim>\<open>NestedEvent.trigger\<close>,
  \<^verbatim>\<open>while tmp.parent and tmp.name not in self.transitions: tmp = tmp.parent\<close>.
\<close>

function resolve :: "(string \<times> transition list) list \<Rightarrow> nested_state \<Rightarrow> nested_state" where
  "resolve tbl tmp =
     (case parent tmp of
        Some p \<Rightarrow> if name tmp \<notin> fst ` set tbl then resolve tbl p else tmp
      | None \<Rightarrow> tmp)"
  by pat_completeness auto
termination
  by (relation "measure (\<lambda>(tbl, s). size s)") (auto simp: size_parent)

declare resolve.simps [simp del]

text \<open>
  Modelled from the spec: the table \<^verbatim>\<open>Event.transitions\<close> is created by the flat
  engine (the module \<^verbatim>\<open>core\<close> is not under src/). Subscripting it with a name
  that has no registration gives the empty list and does not raise: by the
  spec an ignored invalid trigger "is logged and reported as a non-exceptional
  failure (trigger call returns false)".
\<close>

definition transitions_for :: "(string \<times> transition list) list \<Rightarrow> string \<Rightarrow> transition list" where
  "transitions_for tbl k = (case map_of tbl k of None \<Rightarrow> [] | Some ts \<Rightarrow> ts)"

text \<open>
  The last loop of \<^verbatim>\<open>trigger\<close>: execute the candidates in order and stop at the
  first that fires. \<open>exec\<close> stands for \<^verbatim>\<open>t.execute(event)\<close>.
\<close>

fun run_transitions ::
  "(transition \<Rightarrow> machine \<Rightarrow> (error + bool \<times> machine) option) \<Rightarrow> transition list \<Rightarrow> machine
     \<Rightarrow> (error + bool \<times> machine) option"
where
  "run_transitions exec [] m = Some (Inr (False, m))"
| "run_transitions exec (t # ts) m =
     (case exec t m of
        None \<Rightarrow> None
      | Some (Inl e) \<Rightarrow> Some (Inl e)
      | Some (Inr (fired, m')) \<Rightarrow>
          if fired then Some (Inr (True, m')) else run_transitions exec ts m')"

definition truthy :: "bool option \<Rightarrow> bool" where
  "truthy b = (case b of None \<Rightarrow> False | Some v \<Rightarrow> v)"

definition invalid_trigger_msg :: "event \<Rightarrow> machine \<Rightarrow> string" where
  "invalid_trigger_msg ev m =
     ''Can't trigger event '' @ ename ev @ '' from state '' @ name (current_state m) @ ''!''"

text \<open>\<^verbatim>\<open>NestedEvent.trigger\<close>.\<close>

definition trigger ::
  "(transition \<Rightarrow> machine \<Rightarrow> (error + bool \<times> machine) option) \<Rightarrow> event \<Rightarrow> machine
     \<Rightarrow> (error + bool \<times> machine) option"
where
  "trigger exec ev m =
     (let tmp = resolve (transitions ev) (current_state m) in
      if name tmp \<notin> fst ` set (transitions ev) then
        (if truthy (ignore_invalid_triggers (current_state m)) then
           run_transitions exec (transitions_for (transitions ev) (name tmp))
             (m\<lparr>log := log m @ [invalid_trigger_msg ev m]\<rparr>)
         else Some (Inl (MachineError (invalid_trigger_msg ev m))))
      else run_transitions exec (transitions_for (transitions ev) (name tmp)) m)"

text \<open>
  Modelled from the spec: the table \<^verbatim>\<open>Event.transitions\<close> is created by the flat
  engine (the module \<^verbatim>\<open>core\<close> is not under src/). By the spec an ignored invalid
  trigger returns false, so the subscript of line 116 with a name that is not
  a key of the table does not raise. The Python dictionary that answers a
  missing key with an empty list is \<^verbatim>\<open>collections.defaultdict(list)\<close>, and its
  subscript enters the missing key with that list. \<open>subscripted tbl k\<close> is the
  table after \<^verbatim>\<open>tbl[k]\<close>.
\<close>

definition subscripted ::
  "(string \<times> transition list) list \<Rightarrow> string \<Rightarrow> (string \<times> transition list) list"
where
  "subscripted tbl k = (if k \<in> fst ` set tbl then tbl else tbl @ [(k, [])])"

text \<open>
  The event after a call of \<^verbatim>\<open>trigger\<close> (\<open>trigger\<close> above gives the result of the
  call and the machine after it): unless line 113 raised, line 116 has
  subscripted the table with the name the walk of line 105 ended at.
\<close>

definition trigger_event :: "event \<Rightarrow> machine \<Rightarrow> event" where
  "trigger_event ev m =
     (let tmp = resolve (transitions ev) (current_state m) in
      if name tmp \<notin> fst ` set (transitions ev) \<and>
         \<not> truthy (ignore_invalid_triggers (current_state m))
      then ev
      else ev\<lparr>transitions := subscripted (transitions ev) (name tmp)\<rparr>)"

section \<open>FunctionWrapper\<close>

text \<open>
  A \<^verbatim>\<open>FunctionWrapper\<close> is its instance dictionary: the attribute \<^verbatim>\<open>_func\<close> and
  one attribute for each child. \<^verbatim>\<open>str.isdigit\<close> is taken on ASCII.
\<close>

definition isdigit :: "char \<Rightarrow> bool" where
  "isdigit c = (c \<in> set ''0123456789'')"

text \<open>Lines 23-24 of \<^verbatim>\<open>add\<close>: the attribute name a path segment is stored under.\<close>

definition attr_name :: "string \<Rightarrow> string" where
  "attr_name seg = (if isdigit (hd seg) then CHR ''_'' # seg else seg)"

text \<open>
  \<^verbatim>\<open>hasattr(self, name)\<close> holds for the keys of the instance dictionary and for the
  attributes the object has through its class (\<^verbatim>\<open>add\<close>, \<^verbatim>\<open>__call__\<close>, \<^verbatim>\<open>__init__\<close>
  and those of \<^verbatim>\<open>object\<close>, which depend on the Python version). The class is the
  parameter \<open>cls\<close>: \<open>cls n = Some e\<close> when the class gives the attribute \<open>n\<close>,
  and \<open>e\<close> is what calling \<^verbatim>\<open>.add\<close> on that attribute raises (none of them is a
  \<^verbatim>\<open>FunctionWrapper\<close>).
\<close>

definition hasattr :: "(string \<Rightarrow> error option) \<Rightarrow> 'f function_wrapper \<Rightarrow> string \<Rightarrow> bool" where
  "hasattr cls self n = (n \<in> fst ` set self \<or> cls n \<noteq> None)"

text \<open>
  \<^verbatim>\<open>FunctionWrapper.add\<close> and the constructor \<^verbatim>\<open>FunctionWrapper.__init__\<close>, which
  call each other. \<^verbatim>\<open>add\<close> changes the object in place; the model returns the
  new instance dictionary. \<^verbatim>\<open>name[0]\<close> of an empty segment raises. The
  constructor sets \<^verbatim>\<open>_func\<close> to \<^verbatim>\<open>None\<close> after \<^verbatim>\<open>add\<close> has run on the new object.
\<close>

function add ::
    "(string \<Rightarrow> error option) \<Rightarrow> 'f \<Rightarrow> string list \<Rightarrow> 'f function_wrapper
       \<Rightarrow> error + 'f function_wrapper"
  and FunctionWrapper ::
    "(string \<Rightarrow> error option) \<Rightarrow> 'f \<Rightarrow> string list \<Rightarrow> error + 'f function_wrapper"
where
  "add cls func path self =
     (case path of
        [] \<Rightarrow> Inr (AList.update ''_func'' (Func (Some func)) self)
      | seg # rest \<Rightarrow>
          if seg = [] then Inl IndexError
          else
            if hasattr cls self (attr_name seg) then
              (case map_of self (attr_name seg) of
                 Some (Wrap child) \<Rightarrow>
                   (case add cls func rest child of
                      Inl e \<Rightarrow> Inl e
                    | Inr child' \<Rightarrow> Inr (AList.update (attr_name seg) (Wrap child') self))
               | Some (Func f) \<Rightarrow> Inl AttributeError
               | None \<Rightarrow> Inl (case cls (attr_name seg) of Some e \<Rightarrow> e | None \<Rightarrow> AttributeError))
            else
              (case FunctionWrapper cls func rest of
                 Inl e \<Rightarrow> Inl e
               | Inr x \<Rightarrow> Inr (AList.update (attr_name seg) (Wrap x) self)))"
| "FunctionWrapper cls func path =
     (if length path > 0 then
        (case add cls func path [] of
           Inl e \<Rightarrow> Inl e
         | Inr self \<Rightarrow> Inr (AList.update ''_func'' (Func None) self))
      else Inr (AList.update ''_func'' (Func (Some func)) []))"
  by pat_completeness auto
termination
  by (relation "measure (\<lambda>x. case x of
        Inl (cls, func, path, self) \<Rightarrow> 2 * length path
      | Inr (cls, func, path) \<Rightarrow> 2 * length path + 1)") auto

declare add.simps [simp del] FunctionWrapper.simps [simp del]

text \<open>
  Following a list of attribute names down from a wrapper. It is not part of
  the source; the theorems use it to name the nodes of the tree.
\<close>

fun descend :: "'f function_wrapper \<Rightarrow> string list \<Rightarrow> 'f function_wrapper option" where
  "descend w [] = Some w"
| "descend w (k # ks) = (case map_of w k of Some (Wrap c) \<Rightarrow> descend c ks | _ \<Rightarrow> None)"


section \<open>HierarchicalMachine\<close>

subsection \<open>traverse\<close>

text \<open>
  An element of the list given to \<^verbatim>\<open>traverse\<close>: a name, a dictionary, a
  \<^verbatim>\<open>HierarchicalMachine\<close> or a \<^verbatim>\<open>NestedState\<close>. Of a dictionary the model keeps the
  keys \<^verbatim>\<open>name\<close>, \<^verbatim>\<open>ignore_invalid_triggers\<close> (absent, or present with a value that
  may be \<^verbatim>\<open>None\<close>), \<^verbatim>\<open>children\<close> and \<^verbatim>\<open>remap\<close> (absent or present); the callback
  lists do not reach any field of the model. The lists are as \<^verbatim>\<open>listify\<close> returns
  them.
\<close>

datatype state_spec =
    Str string
  | Dict (d_name : string) (d_ignore_invalid_triggers : "bool option option")
      (d_children : "state_spec list option") (d_remap : "(string \<times> string) list option")
  | Mach machine
  | Node nested_state

text \<open>\<^verbatim>\<open>s.split(c)\<close> and \<^verbatim>\<open>sep.join(xs)\<close> of Python strings, for a separator of one character.\<close>

fun split :: "char \<Rightarrow> string \<Rightarrow> string list" where
  "split c [] = [[]]"
| "split c (x # xs) =
     (if x = c then [] # split c xs
      else (case split c xs of [] \<Rightarrow> [[x]] | y # ys \<Rightarrow> (x # y) # ys))"

fun join :: "string \<Rightarrow> string list \<Rightarrow> string" where
  "join sep [] = []"
| "join sep [x] = x"
| "join sep (x # y # ys) = x @ sep @ join sep (y # ys)"

text \<open>
  Lines 180-184: the trigger name of an embedded event. A trigger that starts
  with \<^verbatim>\<open>to_\<close> gets the path of the new parent put after the prefix;
  \<^verbatim>\<open>parent.name\<close> raises when there is no parent.
\<close>

definition embedded_trigger :: "nested_state option \<Rightarrow> string \<Rightarrow> error + string" where
  "embedded_trigger par trig =
     (if take 3 trig = ''to_'' then
        (case par of
           None \<Rightarrow> Inl AttributeError
         | Some p \<Rightarrow>
             (case split CHR ''.'' (name p) of
                [] \<Rightarrow> Inl IndexError
              | p0 # ps \<Rightarrow>
                  Inr (join ''.'' ((''to_'' @ p0) # ps @ split CHR ''.'' (drop 3 trig)))))
      else Inr trig)"

text \<open>
  Lines 187-195: the dictionary appended to \<^verbatim>\<open>_buffered_transitions\<close> for one
  transition of the embedded machine, under the parent \<open>p\<close>.
\<close>

definition embedded_transition ::
  "nested_state \<Rightarrow> (string \<times> string) list \<Rightarrow> string \<Rightarrow> transition \<Rightarrow> buffered"
where
  "embedded_transition p remap trig t =
     \<lparr>source = name p @ separator @ source t,
      dest = (case map_of remap (dest t) of
                None \<Rightarrow> name p @ separator @ dest t
              | Some external \<Rightarrow> external),
      conditions = conditions t, before = before t, after = after t,
      trigger_name = trig\<rparr>"

text \<open>
  The loops of lines 185-186 over the transitions of one event (the lists of
  \<^verbatim>\<open>event.transitions.values()\<close> one after the other). With no parent,
  \<^verbatim>\<open>parent.name\<close> raises at the first transition.
\<close>

fun embed_transitions ::
  "nested_state option \<Rightarrow> (string \<times> string) list \<Rightarrow> string \<Rightarrow> transition list \<Rightarrow> buffered list
     \<Rightarrow> error + buffered list"
where
  "embed_transitions par remap trig [] buf = Inr buf"
| "embed_transitions par remap trig (t # ts) buf =
     (case par of
        None \<Rightarrow> Inl AttributeError
      | Some p \<Rightarrow> embed_transitions par remap trig ts (buf @ [embedded_transition p remap trig t]))"

text \<open>The loop of line 179 over \<^verbatim>\<open>state.events.items()\<close>.\<close>

fun embed_events ::
  "nested_state option \<Rightarrow> (string \<times> string) list \<Rightarrow> (string \<times> event) list \<Rightarrow> buffered list
     \<Rightarrow> error + buffered list"
where
  "embed_events par remap [] buf = Inr buf"
| "embed_events par remap ((trig, ev) # evs) buf =
     (case embedded_trigger par trig of
        Inl e \<Rightarrow> Inl e
      | Inr trig' \<Rightarrow>
          (case embed_transitions par remap trig' (concat (map snd (transitions ev))) buf of
             Inl e \<Rightarrow> Inl e
           | Inr buf' \<Rightarrow> embed_events par remap evs buf'))"

text \<open>Line 177, \<^verbatim>\<open>s.parent = parent\<close>, on the value of a node.\<close>

definition set_parent :: "nested_state option \<Rightarrow> nested_state \<Rightarrow> nested_state" where
  "set_parent p s = NestedState (name' s) (ignore_invalid_triggers s) p"

text \<open>
  \<^verbatim>\<open>traverse\<close>. \<open>traverse_loop\<close> is the loop over \<^verbatim>\<open>states\<close>; its last argument is
  the variable \<^verbatim>\<open>new_states\<close>. In the branch of an embedded machine line 175
  assigns \<^verbatim>\<open>new_states\<close> anew, line 178 extends \<^verbatim>\<open>tmp_states\<close> by it and line 200
  extends it by \<^verbatim>\<open>tmp_states\<close>. A dictionary without children is passed to the
  constructor of \<^verbatim>\<open>NestedState\<close>, which has no parameter \<^verbatim>\<open>remap\<close>. The result is
  the returned list and the machine, whose \<^verbatim>\<open>_buffered_transitions\<close> have grown.
\<close>

function traverse_loop ::
    "machine \<Rightarrow> state_spec list \<Rightarrow> bool option \<Rightarrow> nested_state option
       \<Rightarrow> (string \<times> string) list \<Rightarrow> nested_state list
       \<Rightarrow> error + nested_state list \<times> machine"
  and traverse ::
    "machine \<Rightarrow> state_spec list \<Rightarrow> bool option \<Rightarrow> nested_state option \<Rightarrow> (string \<times> string) list
       \<Rightarrow> error + nested_state list \<times> machine"
where
  "traverse_loop self [] ignore par remap new_states = Inr (new_states, self)"
| "traverse_loop self (Str state # rest) ignore par remap new_states =
     (if state \<in> fst ` set remap then traverse_loop self rest ignore par remap new_states
      else traverse_loop self rest ignore par remap
             (new_states @ [NestedState state ignore par]))"
| "traverse_loop self (Dict n ign children dremap # rest) ignore par remap new_states =
     (case children of
        Some ch \<Rightarrow>
          (case traverse self ch ignore (Some (NestedState n ignore par))
                  (case dremap of None \<Rightarrow> [] | Some r \<Rightarrow> r) of
             Inl e \<Rightarrow> Inl e
           | Inr (p_children, self') \<Rightarrow>
               traverse_loop self' rest ignore par remap
                 (new_states @ NestedState n ignore par # p_children))
      | None \<Rightarrow>
          if dremap \<noteq> None then Inl TypeError
          else traverse_loop self rest ignore par remap
                 (new_states @
                  [NestedState n (case ign of None \<Rightarrow> ignore | Some v \<Rightarrow> v) par]))"
| "traverse_loop self (Mach state # rest) ignore par remap new_states =
     (case embed_events par remap (events state) (buffered_transitions self) of
        Inl e \<Rightarrow> Inl e
      | Inr buf \<Rightarrow>
          traverse_loop (self\<lparr>buffered_transitions := buf\<rparr>) rest ignore par remap
            (let new_states' = map (set_parent par)
                   (filter (\<lambda>s. level s = 0 \<and> name s \<notin> fst ` set remap)
                      (map snd (states state)))
             in new_states' @ new_states'))"
| "traverse_loop self (Node state # rest) ignore par remap new_states =
     traverse_loop self rest ignore par remap (new_states @ [state])"
| "traverse self sts ignore_arg par remap =
     traverse_loop self sts
       (case ignore_arg of None \<Rightarrow> machine_ignore_invalid_triggers self | Some b \<Rightarrow> Some b)
       par remap []"
  by pat_completeness auto
termination
  by (relation "measure (\<lambda>x. case x of
        Inl (self, sts, ignore, par, remap, new_states) \<Rightarrow> 2 * size_list size sts
      | Inr (self, sts, ignore, par, remap) \<Rightarrow> 2 * size_list size sts + 1)") auto

subsection \<open>add_transition and add_states\<close>

text \<open>
  The argument \<^verbatim>\<open>source\<close> of \<^verbatim>\<open>add_transition\<close> is a string or a list of names.
  Lines 216-217 turn it into a list of names.
\<close>

datatype source_arg = SourceStr string | SourceList "string list"

definition expand_source :: "machine \<Rightarrow> source_arg \<Rightarrow> string list" where
  "expand_source self src =
     (case src of
        SourceStr s \<Rightarrow> if s = ''*'' then map (\<lambda>x. name (snd x)) (states self) else [s]
      | SourceList l \<Rightarrow> l)"

text \<open>
  Lines 219-230: a trigger that is new gets its event, and the model gets the
  callable, for a trigger that starts with \<^verbatim>\<open>to_\<close> inside a \<^verbatim>\<open>FunctionWrapper\<close>.
  The attributes of the model are those bound here; calling \<^verbatim>\<open>.add\<close> on one that
  is not a \<^verbatim>\<open>FunctionWrapper\<close> raises.
\<close>

definition bind_trigger :: "(string \<Rightarrow> error option) \<Rightarrow> string \<Rightarrow> machine \<Rightarrow> error + machine" where
  "bind_trigger cls trig self =
     (if trig \<notin> fst ` set (events self) then
        (let self1 = self\<lparr>events :=
               AList.update trig \<lparr>ename = trig, transitions = []\<rparr> (events self)\<rparr>
         in if take 3 trig = ''to_'' then
              (case split CHR ''.'' (drop 3 trig) of
                 [] \<Rightarrow> Inl IndexError
               | p0 # ps \<Rightarrow>
                   if ''to_'' @ p0 \<in> fst ` set (model self1) then
                     (case map_of (model self1) (''to_'' @ p0) of
                        Some (Wrap t) \<Rightarrow>
                          (case add cls trig ps t of
                             Inl e \<Rightarrow> Inl e
                           | Inr t' \<Rightarrow>
                               Inr (self1\<lparr>model :=
                                      AList.update (''to_'' @ p0) (Wrap t') (model self1)\<rparr>))
                      | _ \<Rightarrow> Inl AttributeError)
                   else
                     (case FunctionWrapper cls trig ps of
                        Inl e \<Rightarrow> Inl e
                      | Inr t \<Rightarrow>
                          Inr (self1\<lparr>model :=
                                 AList.update (''to_'' @ p0) (Wrap t) (model self1)\<rparr>)))
            else Inr (self1\<lparr>model := AList.update trig (Func (Some trig)) (model self1)\<rparr>))
      else Inr self)"

text \<open>
  Modelled from the spec: \<^verbatim>\<open>Machine.add_transition\<close> of the flat engine (the module
  \<^verbatim>\<open>core\<close> is not under src/), to which line 231 "delegates transition
  storage": for each source name, in order, a transition from that name is
  appended to the list the event has for it. The guards given as \<^verbatim>\<open>unless\<close> are
  left out.
\<close>

fun store_transitions ::
  "string list \<Rightarrow> string \<Rightarrow> string list \<Rightarrow> string list \<Rightarrow> string list
     \<Rightarrow> (string \<times> transition list) list \<Rightarrow> (string \<times> transition list) list"
where
  "store_transitions [] dst conds bef aft tbl = tbl"
| "store_transitions (s # ss) dst conds bef aft tbl =
     store_transitions ss dst conds bef aft
       (AList.update s
          (transitions_for tbl s @
           [\<lparr>source = s, dest = dst, conditions = conds, before = bef, after = aft\<rparr>]) tbl)"

definition base_add_transition ::
  "string \<Rightarrow> string list \<Rightarrow> string \<Rightarrow> string list \<Rightarrow> string list \<Rightarrow> string list \<Rightarrow> machine
     \<Rightarrow> machine"
where
  "base_add_transition trig srcs dst conds bef aft self =
     (let ev = (case map_of (events self) trig of
                  None \<Rightarrow> \<lparr>ename = trig, transitions = []\<rparr>
                | Some ev \<Rightarrow> ev)
      in self\<lparr>events :=
           AList.update trig
             (ev\<lparr>transitions := store_transitions srcs dst conds bef aft (transitions ev)\<rparr>)
             (events self)\<rparr>)"

text \<open>\<^verbatim>\<open>HierarchicalMachine.add_transition\<close>.\<close>

definition add_transition ::
  "(string \<Rightarrow> error option) \<Rightarrow> string \<Rightarrow> source_arg \<Rightarrow> string \<Rightarrow> string list \<Rightarrow> string list
     \<Rightarrow> string list \<Rightarrow> machine \<Rightarrow> error + machine"
where
  "add_transition cls trig src dst conds bef aft self =
     (let srcs = expand_source self src in
      case bind_trigger cls trig self of
        Inl e \<Rightarrow> Inl e
      | Inr self' \<Rightarrow> Inr (base_add_transition trig srcs dst conds bef aft self'))"

text \<open>
  Modelled from the spec: \<^verbatim>\<open>Machine.add_states\<close> of the flat engine (the module
  \<^verbatim>\<open>core\<close> is not under src/), to which line 206 "delegates node registration":
  each node is entered in the registry under its qualified name.
\<close>

fun base_add_states :: "nested_state list \<Rightarrow> machine \<Rightarrow> machine" where
  "base_add_states [] self = self"
| "base_add_states (s # ss) self =
     base_add_states ss (self\<lparr>states := AList.update (name s) s (states self)\<rparr>)"

lemma bind_trigger_buffered:
  "bind_trigger cls trig self = Inr self' \<Longrightarrow>
     buffered_transitions self' = buffered_transitions self"
  by (auto simp: bind_trigger_def Let_def split: if_splits list.splits option.splits attr.splits sum.splits)

lemma add_transition_buffered:
  "add_transition cls trig src dst conds bef aft self = Inr self' \<Longrightarrow>
     buffered_transitions self' = buffered_transitions self"
  by (auto simp: add_transition_def base_add_transition_def Let_def
      dest: bind_trigger_buffered split: sum.splits)

text \<open>
  Lines 210-212: the loop that pops the buffered transitions from the end and
  registers each through \<^verbatim>\<open>add_transition\<close>.
\<close>

function flush_buffered :: "(string \<Rightarrow> error option) \<Rightarrow> machine \<Rightarrow> error + machine" where
  "flush_buffered cls self =
     (if length (buffered_transitions self) > 0 then
        (let args = last (buffered_transitions self);
             self1 = self\<lparr>buffered_transitions := butlast (buffered_transitions self)\<rparr>
         in case add_transition cls (trigger_name args) (SourceStr (source args)) (dest args)
                   (conditions args) (before args) (after args) self1 of
              Inl e \<Rightarrow> Inl e
            | Inr self2 \<Rightarrow> flush_buffered cls self2)
      else Inr self)"
  by pat_completeness auto
termination
proof (relation "measure (\<lambda>(cls, self). length (buffered_transitions self))")
  show "wf (measure (\<lambda>(cls, self). length (buffered_transitions self)))"
    by simp
next
  fix cls :: "string \<Rightarrow> error option" and self args self1 self2
  assume "0 < length (buffered_transitions self)"
    and "args = last (buffered_transitions self)"
    and "self1 = self\<lparr>buffered_transitions := butlast (buffered_transitions self)\<rparr>"
    and "add_transition cls (trigger_name args) (SourceStr (source args)) (dest args)
           (conditions args) (before args) (after args) self1 = Inr self2"
  then show "((cls, self2), (cls, self)) \<in> measure (\<lambda>(cls, self). length (buffered_transitions self))"
    by (auto dest!: add_transition_buffered)
qed

declare flush_buffered.simps [simp del]

text \<open>
  \<^verbatim>\<open>HierarchicalMachine.add_states\<close>, called with the states and, at most,
  \<^verbatim>\<open>ignore_invalid_triggers\<close>.
\<close>

definition add_states ::
  "(string \<Rightarrow> error option) \<Rightarrow> state_spec list \<Rightarrow> bool option \<Rightarrow> machine \<Rightarrow> error + machine"
where
  "add_states cls sts ignore_arg self =
     (case traverse self sts ignore_arg None [] of
        Inl e \<Rightarrow> Inl e
      | Inr (new_states, self1) \<Rightarrow> flush_buffered cls (base_add_states new_states self1))"

text \<open>
  All transitions registered on a machine, event by event. It is not part of
  the source; the theorems use it to name the transitions of an embedded
  machine.
\<close>

definition registered_transitions :: "machine \<Rightarrow> transition list" where
  "registered_transitions m =
     concat (map (\<lambda>(trig, ev). concat (map snd (transitions ev))) (events m))"

text \<open>
  The source names an event has transitions registered for, and whether a
  state spec contains an embedded machine. They are not part of the source; the
  theorems use them.
\<close>

definition registered_sources :: "machine \<Rightarrow> string \<Rightarrow> string set" where
  "registered_sources m trig =
     (case map_of (events m) trig of None \<Rightarrow> {} | Some ev \<Rightarrow> fst ` set (transitions ev))"

fun has_machine :: "state_spec \<Rightarrow> bool" where
  "has_machine (Str n) = False"
| "has_machine (Dict n ign children dremap) =
     (case children of None \<Rightarrow> False | Some ch \<Rightarrow> \<exists>c \<in> set ch. has_machine c)"
| "has_machine (Mach m) = True"
| "has_machine (Node s) = False"

section \<open>Object identity in traverse\<close>

text \<open>
  The model of \<^verbatim>\<open>traverse\<close> above works on values, so it cannot tell whether
  \<^verbatim>\<open>traverse\<close> writes an object of its caller or a copy. This section gives
  \<^verbatim>\<open>traverse\<close> a second time, on a store: state objects and dictionaries are
  cells named by addresses, and \<open>traverse_store\<close> does to the cells what lines
  141-201 do to the objects, branch by branch.

  A state object has its local name, the flag \<^verbatim>\<open>ignore_invalid_triggers\<close> and the
  address of its parent. \<open>node_at\<close> follows the parent links and gives the node
  as the value of its chain; level and qualified name are those of that value.
  It has no value where the chain runs in a cycle (in Python the recursion of
  \<^verbatim>\<open>level\<close> and \<^verbatim>\<open>name\<close> does not end there) or leaves the store (which does not
  arise).
\<close>

record state_obj =
  obj_name :: string
  obj_ignore_invalid_triggers :: "bool option"
  obj_parent :: "nat option"

partial_function (option) node_at :: "state_obj list \<Rightarrow> nat \<Rightarrow> nested_state option" where
  "node_at h a =
     (if a < length h then
        (case obj_parent (h ! a) of
           None \<Rightarrow> Some (NestedState (obj_name (h ! a)) (obj_ignore_invalid_triggers (h ! a)) None)
         | Some p \<Rightarrow>
             Option.bind (node_at h p)
               (\<lambda>q. Some (NestedState (obj_name (h ! a)) (obj_ignore_invalid_triggers (h ! a))
                             (Some q))))
      else None)"

declare node_at.simps [code]



text \<open>
  An element of the list given to \<^verbatim>\<open>traverse\<close>: a name, a dictionary (its
  address), a \<^verbatim>\<open>HierarchicalMachine\<close>, given by the addresses of its states
  (\<^verbatim>\<open>state.states.values()\<close>) and by its events (\<^verbatim>\<open>state.events.items()\<close>), or a
  \<^verbatim>\<open>NestedState\<close> (its address). A dictionary has the keys of the model above
  and the key \<^verbatim>\<open>parent\<close>, which line 160 writes (absent, or present with a value
  that may be \<^verbatim>\<open>None\<close>). The store holds the state objects and the dictionaries.
\<close>

datatype obj_spec =
    OStr string
  | ODict nat
  | OMach "nat list" "(string \<times> event) list"
  | ONode nat

record dict_obj =
  key_name :: string
  key_ignore_invalid_triggers :: "bool option option"
  key_children :: "obj_spec list option"
  key_remap :: "(string \<times> string) list option"
  key_parent :: "nat option option"

record store =
  objs :: "state_obj list"
  dicts :: "dict_obj list"

text \<open>
  \<^verbatim>\<open>copy.deepcopy(state)\<close>, line 157. It copies every object the dictionary
  reaches, once: the dictionaries among its children, an embedded machine with
  its states, the nodes these refer to as parents; and the references among
  the copies go to the copies. In the model every cell of the store is copied,
  the cell at the address \<open>a\<close> to the address \<open>a\<close> plus the size of the store
  before, and each reference a copy holds is moved by as much. No cell that
  was there is written, and the copy of the dictionary refers to the copies of
  what the dictionary reaches only, so the model differs from Python by cells
  that nothing refers to. The result is the store and the address of the copy.
\<close>

definition shift_spec :: "nat \<Rightarrow> nat \<Rightarrow> obj_spec \<Rightarrow> obj_spec" where
  "shift_spec no nd s =
     (case s of
        OStr n \<Rightarrow> OStr n
      | ODict d \<Rightarrow> ODict (d + nd)
      | OMach ss evs \<Rightarrow> OMach (map (\<lambda>a. a + no) ss) evs
      | ONode a \<Rightarrow> ONode (a + no))"

definition shift_obj :: "nat \<Rightarrow> state_obj \<Rightarrow> state_obj" where
  "shift_obj no ob = ob\<lparr>obj_parent := map_option (\<lambda>a. a + no) (obj_parent ob)\<rparr>"

definition shift_dict :: "nat \<Rightarrow> nat \<Rightarrow> dict_obj \<Rightarrow> dict_obj" where
  "shift_dict no nd d =
     d\<lparr>key_children := map_option (map (shift_spec no nd)) (key_children d),
       key_parent := map_option (map_option (\<lambda>a. a + no)) (key_parent d)\<rparr>"

definition deepcopy :: "store \<Rightarrow> nat \<Rightarrow> store \<times> nat" where
  "deepcopy st d =
     (let no = length (objs st); nd = length (dicts st)
      in (st\<lparr>objs := objs st @ map (shift_obj no) (objs st),
             dicts := dicts st @ map (shift_dict no nd) (dicts st)\<rparr>,
          d + nd))"

text \<open>
  Lines 157-160: the dictionary is copied, and the keys
  \<^verbatim>\<open>ignore_invalid_triggers\<close> (if absent) and \<^verbatim>\<open>parent\<close> are written in the copy.
  The result is the store and the address of the copy, the new value of the
  variable \<^verbatim>\<open>state\<close>.
\<close>

definition copy_dict :: "store \<Rightarrow> nat \<Rightarrow> bool option \<Rightarrow> nat option \<Rightarrow> store \<times> nat" where
  "copy_dict st d ignore par =
     (case deepcopy st d of
        (st1, state) \<Rightarrow>
          (let s1 = (if key_ignore_invalid_triggers (dicts st1 ! state) = None
                     then (dicts st1 ! state)\<lparr>key_ignore_invalid_triggers := Some ignore\<rparr>
                     else dicts st1 ! state)
           in (st1\<lparr>dicts := (dicts st1)[state := s1\<lparr>key_parent := Some par\<rparr>]\<rparr>, state)))"

text \<open>The constructor \<^verbatim>\<open>NestedState(name, ignore_invalid_triggers, parent)\<close>: a new cell.\<close>

definition NestedState_new ::
  "store \<Rightarrow> string \<Rightarrow> bool option \<Rightarrow> nat option \<Rightarrow> store \<times> nat"
where
  "NestedState_new st n ignore par =
     (st\<lparr>objs := objs st @
            [\<lparr>obj_name = n, obj_ignore_invalid_triggers = ignore, obj_parent = par\<rparr>]\<rparr>,
      length (objs st))"

text \<open>
  Line 175: the states of the embedded machine at level 0 whose name is not in
  \<^verbatim>\<open>remap\<close>, as addresses, in the order of \<^verbatim>\<open>state.states.values()\<close>.
\<close>

fun select_states ::
  "state_obj list \<Rightarrow> (string \<times> string) list \<Rightarrow> nat list \<Rightarrow> nat list option"
where
  "select_states h remap [] = Some []"
| "select_states h remap (s # ss) =
     (case node_at h s of
        None \<Rightarrow> None
      | Some n \<Rightarrow>
          (case select_states h remap ss of
             None \<Rightarrow> None
           | Some r \<Rightarrow> Some (if level n = 0 \<and> name n \<notin> fst ` set remap then s # r else r)))"

text \<open>Lines 176-177: \<^verbatim>\<open>s.parent = parent\<close> for each of them, in the cell of \<^verbatim>\<open>s\<close>.\<close>

fun reparent :: "nat option \<Rightarrow> nat list \<Rightarrow> state_obj list \<Rightarrow> state_obj list" where
  "reparent par [] h = h"
| "reparent par (s # ss) h = reparent par ss (h[s := (h ! s)\<lparr>obj_parent := par\<rparr>])"

text \<open>
  Lines 179-195 on the store. \<^verbatim>\<open>parent.name\<close> is read for a trigger that starts
  with \<^verbatim>\<open>to_\<close> and for each transition; where nothing reads it the loop leaves
  \<^verbatim>\<open>_buffered_transitions\<close> as it is.
\<close>

definition reads_parent :: "(string \<times> event) list \<Rightarrow> bool" where
  "reads_parent evs =
     list_ex (\<lambda>(trig, ev). take 3 trig = ''to_'' \<or> concat (map snd (transitions ev)) \<noteq> []) evs"

definition embed_events_at ::
  "state_obj list \<Rightarrow> nat option \<Rightarrow> (string \<times> string) list \<Rightarrow> (string \<times> event) list
     \<Rightarrow> buffered list \<Rightarrow> (error + buffered list) option"
where
  "embed_events_at h par remap evs buf =
     (case par of
        None \<Rightarrow> Some (embed_events None remap evs buf)
      | Some p \<Rightarrow>
          if reads_parent evs then
            (case node_at h p of
               None \<Rightarrow> None
             | Some q \<Rightarrow> Some (embed_events (Some q) remap evs buf))
          else Some (Inr buf))"

text \<open>
  \<^verbatim>\<open>traverse\<close> on the store. The result is the returned list, as addresses, the
  machine, whose \<^verbatim>\<open>_buffered_transitions\<close> have grown, and the store. \<open>depth\<close>
  bounds how deep the recursion of line 167 into \<^verbatim>\<open>children\<close> goes: a
  dictionary of the store may be among its own children, and then the
  recursion does not end. The result is \<open>None\<close>, "does not return", where the
  depth does not suffice or a parent chain that is read runs in a cycle (and
  for the address of a dictionary outside the store, which does not arise).
\<close>

function traverse_store_loop ::
    "nat \<Rightarrow> machine \<Rightarrow> store \<Rightarrow> obj_spec list \<Rightarrow> bool option \<Rightarrow> nat option
       \<Rightarrow> (string \<times> string) list \<Rightarrow> nat list
       \<Rightarrow> (error + nat list \<times> machine \<times> store) option"
  and traverse_store ::
    "nat \<Rightarrow> machine \<Rightarrow> store \<Rightarrow> obj_spec list \<Rightarrow> bool option \<Rightarrow> nat option
       \<Rightarrow> (string \<times> string) list
       \<Rightarrow> (error + nat list \<times> machine \<times> store) option"
where
  "traverse_store_loop depth self st [] ignore par remap new_states =
     Some (Inr (new_states, self, st))"
| "traverse_store_loop depth self st (OStr state # rest) ignore par remap new_states =
     (if state \<in> fst ` set remap then
        traverse_store_loop depth self st rest ignore par remap new_states
      else
        (case NestedState_new st state ignore par of
           (st1, new) \<Rightarrow>
             traverse_store_loop depth self st1 rest ignore par remap (new_states @ [new])))"
| "traverse_store_loop depth self st (ODict d # rest) ignore par remap new_states =
     (if d < length (dicts st) then
        (case copy_dict st d ignore par of
           (st1, state) \<Rightarrow>
             (case key_children (dicts st1 ! state) of
                Some children \<Rightarrow>
                  (case NestedState_new st1 (key_name (dicts st1 ! state)) ignore par of
                     (st2, p) \<Rightarrow>
                       (case depth of
                          0 \<Rightarrow> None
                        | Suc depth' \<Rightarrow>
                            (case traverse_store depth' self st2 children ignore (Some p)
                                    (case key_remap (dicts st1 ! state) of
                                       None \<Rightarrow> [] | Some r \<Rightarrow> r) of
                               None \<Rightarrow> None
                             | Some (Inl e) \<Rightarrow> Some (Inl e)
                             | Some (Inr (p_children, self', st3)) \<Rightarrow>
                                 traverse_store_loop depth self' st3 rest ignore par remap
                                   (new_states @ p # p_children))))
              | None \<Rightarrow>
                  if key_remap (dicts st1 ! state) \<noteq> None then Some (Inl TypeError)
                  else
                    (case NestedState_new st1 (key_name (dicts st1 ! state))
                            (case key_ignore_invalid_triggers (dicts st1 ! state) of
                               None \<Rightarrow> None | Some v \<Rightarrow> v)
                            (case key_parent (dicts st1 ! state) of
                               None \<Rightarrow> None | Some v \<Rightarrow> v) of
                       (st2, new) \<Rightarrow>
                         traverse_store_loop depth self st2 rest ignore par remap
                           (new_states @ [new]))))
      else None)"
| "traverse_store_loop depth self st (OMach donor evs # rest) ignore par remap new_states =
     (case select_states (objs st) remap donor of
        None \<Rightarrow> None
      | Some new_states' \<Rightarrow>
          (case embed_events_at (reparent par new_states' (objs st)) par remap evs
                  (buffered_transitions self) of
             None \<Rightarrow> None
           | Some (Inl e) \<Rightarrow> Some (Inl e)
           | Some (Inr buf) \<Rightarrow>
               traverse_store_loop depth (self\<lparr>buffered_transitions := buf\<rparr>)
                 (st\<lparr>objs := reparent par new_states' (objs st)\<rparr>) rest
                 ignore par remap (new_states' @ new_states')))"
| "traverse_store_loop depth self st (ONode state # rest) ignore par remap new_states =
     traverse_store_loop depth self st rest ignore par remap (new_states @ [state])"
| "traverse_store depth self st sts ignore_arg par remap =
     traverse_store_loop depth self st sts
       (case ignore_arg of None \<Rightarrow> machine_ignore_invalid_triggers self | Some b \<Rightarrow> Some b)
       par remap []"
  by pat_completeness auto
termination
  by (relation "inv_image (less_than <*lex*> less_than) (\<lambda>x. case x of
        Inl (depth, self, st, sts, ignore, par, remap, new_states) \<Rightarrow> (depth, 2 * length sts)
      | Inr (depth, self, st, sts, ignore, par, remap) \<Rightarrow> (depth, 2 * length sts + 1))") auto

text \<open>
  The states of a machine that is itself an element of the list, and what a
  call may do to the cells that were in the store before it: no dictionary is
  written, and a state object is written only if it is in \<open>M\<close> and had no
  parent, and then its parent is set to \<open>par\<close>. They are not part of the
  source; the theorems use them.
\<close>

fun machine_states :: "obj_spec \<Rightarrow> nat list" where
  "machine_states (OMach donor evs) = donor"
| "machine_states (OStr n) = []"
| "machine_states (ODict d) = []"
| "machine_states (ONode a) = []"

definition frame :: "nat option \<Rightarrow> nat set \<Rightarrow> store \<Rightarrow> store \<Rightarrow> bool" where
  "frame par M st st' \<longleftrightarrow>
     length (objs st) \<le> length (objs st') \<and> length (dicts st) \<le> length (dicts st') \<and>
     (\<forall>d < length (dicts st). dicts st' ! d = dicts st ! d) \<and>
     (\<forall>a < length (objs st).
        objs st' ! a = objs st ! a \<or>
        (a \<in> M \<and> obj_parent (objs st ! a) = None \<and>
         objs st' ! a = (objs st ! a)\<lparr>obj_parent := par\<rparr>))"

section \<open>An example tree\<close>

text \<open>
  The tree \<open>A{B{D{F}, E}, C}\<close>: the scenario tree of the spec with one more
  level under \<open>D\<close>. The states ignore invalid triggers.
\<close>

definition st_A :: nested_state where "st_A = NestedState ''A'' (Some True) None"
definition st_B :: nested_state where "st_B = NestedState ''B'' (Some True) (Some st_A)"
definition st_C :: nested_state where "st_C = NestedState ''C'' (Some True) (Some st_A)"
definition st_D :: nested_state where "st_D = NestedState ''D'' (Some True) (Some st_B)"
definition st_E :: nested_state where "st_E = NestedState ''E'' (Some True) (Some st_B)"
definition st_F :: nested_state where "st_F = NestedState ''F'' (Some True) (Some st_D)"

lemmas st_defs = st_A_def st_B_def st_C_def st_D_def st_E_def st_F_def

definition tree_machine :: "nested_state \<Rightarrow> machine" where
  "tree_machine cur =
     \<lparr>states = map (\<lambda>s. (name s, s)) [st_A, st_B, st_D, st_F, st_E, st_C],
      events = [], current_state = cur, machine_ignore_invalid_triggers = Some True,
      model = [], buffered_transitions = [], hooks = [], log = []\<rparr>"

definition go :: "string \<Rightarrow> string \<Rightarrow> transition" where
  "go src dst = \<lparr>source = src, dest = dst, conditions = [], before = [], after = []\<rparr>"

text \<open>The trigger \<open>go\<close> is declared on \<open>A\<close> and on \<open>A.B\<close>; \<open>jump\<close> on no state of the tree.\<close>

definition go_event :: event where
  "go_event =
     \<lparr>ename = ''go'',
      transitions = [(''A'', [go ''A'' ''A.C'']), (''A.B'', [go ''A.B'' ''A.B.E''])]\<rparr>"

definition jump_event :: event where
  "jump_event = \<lparr>ename = ''jump'', transitions = [(''X'', [go ''X'' ''A.C''])]\<rparr>"

text \<open>
  A wrapper as the constructor builds it for the path \<open>A.1x\<close>, and the class
  attributes every Python version has.
\<close>

definition wrapper_class :: "string \<Rightarrow> error option" where
  "wrapper_class n =
     (if n \<in> {''add'', ''__call__'', ''__init__''} then Some AttributeError else None)"

definition wrapper_A :: "string function_wrapper" where
  "wrapper_A = [(''_1x'', Wrap [(''_func'', Func (Some ''f''))]), (''_func'', Func None)]"

definition wrapper_0 :: "string function_wrapper" where
  "wrapper_0 = [(''A'', Wrap wrapper_A), (''_func'', Func None)]"

definition wrapper_1 :: "string function_wrapper" where
  "wrapper_1 =
     [(''A'', Wrap [(''_1x'', Wrap [(''_func'', Func (Some ''f''))]), (''_func'', Func None),
                   (''_2y'', Wrap [(''_func'', Func (Some ''g''))])]),
      (''_func'', Func None)]"

text \<open>
  The embedding scenario of the spec: the machine \<open>X\<close> with the states \<open>P\<close> and
  \<open>Q\<close> and the trigger \<open>go\<close> from \<open>P\<close> to \<open>Q\<close>, and a host machine with the
  state \<open>N\<close>.
\<close>

definition st_N :: nested_state where "st_N = NestedState ''N'' (Some False) None"
definition st_P :: nested_state where "st_P = NestedState ''P'' (Some False) None"
definition st_Q :: nested_state where "st_Q = NestedState ''Q'' (Some False) None"

definition machine_X :: machine where
  "machine_X =
     \<lparr>states = [(''P'', st_P), (''Q'', st_Q)],
      events = [(''go'', \<lparr>ename = ''go'', transitions = [(''P'', [go ''P'' ''Q''])]\<rparr>)],
      current_state = st_P, machine_ignore_invalid_triggers = Some False,
      model = [(''go'', Func (Some ''go''))], buffered_transitions = [], hooks = [], log = []\<rparr>"

definition host :: machine where
  "host =
     \<lparr>states = [(''N'', st_N)], events = [], current_state = st_N,
      machine_ignore_invalid_triggers = Some False, model = [], buffered_transitions = [],
      hooks = [], log = []\<rparr>"

text \<open>
  The machine of the example tree after \<^verbatim>\<open>add_transition('reset', '*', 'A')\<close>, and
  after a later \<^verbatim>\<open>add_states('Z')\<close>.
\<close>

definition reset_machine :: machine where
  "reset_machine =
     (tree_machine st_D)
       \<lparr>events := [(''reset'', \<lparr>ename = ''reset'',
            transitions = map (\<lambda>s. (s, [go s ''A'']))
              [''A'', ''A.B'', ''A.B.D'', ''A.B.D.F'', ''A.B.E'', ''A.C'']\<rparr>)],
        model := [(''reset'', Func (Some ''reset''))]\<rparr>"

definition reset_machine_Z :: machine where
  "reset_machine_Z =
     reset_machine\<lparr>states := states reset_machine @ [(''Z'', NestedState ''Z'' (Some True) None)]\<rparr>"

text \<open>
  The embedding scenario on the store. In \<open>store_N\<close> the states \<open>P\<close> and \<open>Q\<close>
  of the machine \<open>X\<close> are at the addresses 0 and 1, and the dictionary
  \<^verbatim>\<open>{'name': 'N', 'children': [X]}\<close> is at the address 0; \<open>store_N'\<close> is that store
  after \<^verbatim>\<open>traverse\<close> has been given the dictionary. In \<open>store_X\<close> the state \<open>N\<close>
  of the host is at the address 0, the states \<open>P\<close>, \<open>Q\<close> and \<open>P.D\<close> of a
  machine are at the addresses 1 to 3 and the dictionary
  \<^verbatim>\<open>{'name': 'S', 'children': ['x']}\<close> is at the address 0; \<open>store_X'\<close> is that
  store after \<^verbatim>\<open>traverse\<close> has been given the machine and the dictionary, with the
  parent \<open>N\<close>.
\<close>

definition store_N :: store where
  "store_N =
     \<lparr>objs = [\<lparr>obj_name = ''P'', obj_ignore_invalid_triggers = Some False, obj_parent = None\<rparr>,
              \<lparr>obj_name = ''Q'', obj_ignore_invalid_triggers = Some False, obj_parent = None\<rparr>],
      dicts = [\<lparr>key_name = ''N'', key_ignore_invalid_triggers = None,
                key_children = Some [OMach [0, 1] (events machine_X)],
                key_remap = None, key_parent = None\<rparr>]\<rparr>"

definition store_N' :: store where
  "store_N' =
     \<lparr>objs = objs store_N @
              [\<lparr>obj_name = ''P'', obj_ignore_invalid_triggers = Some False, obj_parent = Some 4\<rparr>,
               \<lparr>obj_name = ''Q'', obj_ignore_invalid_triggers = Some False, obj_parent = Some 4\<rparr>,
               \<lparr>obj_name = ''N'', obj_ignore_invalid_triggers = Some False, obj_parent = None\<rparr>],
      dicts = dicts store_N @
              [\<lparr>key_name = ''N'', key_ignore_invalid_triggers = Some (Some False),
                key_children = Some [OMach [2, 3] (events machine_X)],
                key_remap = None, key_parent = Some None\<rparr>]\<rparr>"



text \<open>The record buffered for the transition of \<open>X\<close> when \<open>X\<close> is embedded under \<open>N\<close>.\<close>

definition buffered_go :: buffered where
  "buffered_go =
     \<lparr>source = ''N.P'', dest = ''N.Q'', conditions = [], before = [], after = [],
      trigger_name = ''go''\<rparr>"

section \<open>Trigger resolution\<close>

lemma chain_nonempty: "chain s \<noteq> []"
  by (cases s rule: chain.cases) simp_all

lemma resolve_find:
  "resolve tbl s =
     (case find (\<lambda>n. name n \<in> fst ` set tbl) (chain s) of
        Some n \<Rightarrow> n | None \<Rightarrow> last (chain s))"
proof (induction s)
  case (NestedState n i p)
  show ?case
  proof (cases p)
    case None
    then show ?thesis by (subst resolve.simps) simp
  next
    case (Some q)
    with NestedState.IH [of q] show ?thesis
      by (subst resolve.simps) (simp add: chain_nonempty split: option.splits)
  qed
qed

lemma transitions_for_unregistered:
  "k \<notin> fst ` set tbl \<Longrightarrow> transitions_for tbl k = []"
proof -
  assume "k \<notin> fst ` set tbl"
  then have "map_of tbl k = None" by (simp add: map_of_eq_None_iff)
  then show ?thesis by (simp add: transitions_for_def)
qed

lemma find_first:
  "\<forall>x \<in> set pre. \<not> P x \<Longrightarrow> P y \<Longrightarrow> find P (pre @ y # post) = Some y"
  by (induction pre) simp_all

text \<open>
  The first firing of an invalid trigger: when the active state has
  \<^verbatim>\<open>ignore_invalid_triggers\<close> set and no node on its parent chain (the state
  itself included) has its qualified name among the keys of the table,
  \<^verbatim>\<open>trigger\<close> logs the message and returns \<^verbatim>\<open>False\<close>; it raises nothing and
  executes no transition, so the machine is otherwise unchanged.
\<close>

theorem trigger_ignored_invalid:
  assumes "\<forall>n \<in> set (chain (current_state m)). name n \<notin> fst ` set (transitions ev)"
    and "truthy (ignore_invalid_triggers (current_state m))"
  shows "trigger exec ev m = Some (Inr (False, m\<lparr>log := log m @ [invalid_trigger_msg ev m]\<rparr>))"
proof -
  let ?tmp = "resolve (transitions ev) (current_state m)"
  have "find (\<lambda>n. name n \<in> fst ` set (transitions ev)) (chain (current_state m)) = None"
    using assms(1) by (simp add: find_None_iff)
  then have "?tmp = last (chain (current_state m))"
    by (simp add: resolve_find)
  then have "?tmp \<in> set (chain (current_state m))"
    using chain_nonempty by simp
  then have "name ?tmp \<notin> fst ` set (transitions ev)"
    using assms(1) by blast
  then show ?thesis
    using assms(2) by (simp add: trigger_def Let_def transitions_for_unregistered)
qed

theorem trigger_ignored_invalid_witness:
  "trigger (execute (\<lambda>c m. True)) jump_event (tree_machine st_D) =
     Some (Inr (False,
       (tree_machine st_D)\<lparr>log := [''Can't trigger event jump from state A.B.D!'']\<rparr>))"
proof -
  have "trigger (execute (\<lambda>c m. True)) jump_event (tree_machine st_D) =
     Some (Inr (False, (tree_machine st_D)
       \<lparr>log := log (tree_machine st_D) @ [invalid_trigger_msg jump_event (tree_machine st_D)]\<rparr>))"
    by (rule trigger_ignored_invalid)
       (simp_all add: tree_machine_def st_defs jump_event_def truthy_def separator_def)
  then show ?thesis
    by (simp add: tree_machine_def st_defs jump_event_def invalid_trigger_msg_def separator_def)
qed

lemma map_of_unregistered: "k \<notin> fst ` set tbl \<Longrightarrow> map_of tbl k = None"
  by (simp add: map_of_eq_None_iff)

lemma transitions_for_appended:
  "k \<notin> fst ` set tbl \<Longrightarrow> transitions_for (tbl @ [(k, [])]) k' = transitions_for tbl k'"
  by (cases "k' \<in> fst ` set tbl")
     (auto simp: transitions_for_def map_of_unregistered map_add_def split: option.splits)

text \<open>
  A later firing, after a first one that was ignored: line 116 has entered the
  name of the root in the table, with the empty list. Still no node of the
  chain has a transition registered for the trigger, but the test of line 107
  now finds a key: the call returns \<^verbatim>\<open>False\<close> and logs nothing.
\<close>

lemma trigger_ignored_again:
  assumes "\<forall>n \<in> set (chain (current_state m)). name n \<notin> fst ` set (transitions ev)"
    and "truthy (ignore_invalid_triggers (current_state m))"
    and "current_state m' = current_state m"
  shows "trigger exec (trigger_event ev m) m' = Some (Inr (False, m'))"
    and "\<forall>n \<in> set (chain (current_state m)).
           transitions_for (transitions (trigger_event ev m)) (name n) = []"
proof -
  let ?c = "chain (current_state m)"
  let ?r = "last ?c"
  let ?tbl = "transitions ev @ [(name ?r, [])]"
  have f: "find (\<lambda>n. name n \<in> fst ` set (transitions ev)) ?c = None"
    using assms(1) by (simp add: find_None_iff)
  then have r: "resolve (transitions ev) (current_state m) = ?r"
    by (simp add: resolve_find)
  have rin: "?r \<in> set ?c" using chain_nonempty by simp
  then have nk: "name ?r \<notin> fst ` set (transitions ev)" using assms(1) by blast
  have ev': "transitions (trigger_event ev m) = ?tbl"
    using nk assms(2) by (simp add: trigger_event_def Let_def r subscripted_def)
  show all: "\<forall>n \<in> set ?c. transitions_for (transitions (trigger_event ev m)) (name n) = []"
    using assms(1) nk by (simp add: ev' transitions_for_appended transitions_for_unregistered)
  obtain n where n: "find (\<lambda>n. name n \<in> fst ` set ?tbl) ?c = Some n"
    using rin by (cases "find (\<lambda>n. name n \<in> fst ` set ?tbl) ?c") (auto simp: find_None_iff)
  then have nin: "n \<in> set ?c" and key: "name n \<in> fst ` set ?tbl"
    by (auto simp: find_Some_iff in_set_conv_nth)
  have res: "resolve ?tbl (current_state m') = n"
    using n assms(3) by (simp add: resolve_find)
  have "transitions_for ?tbl (name n) = []"
    using all nin by (simp add: ev')
  moreover have "name n = name ?r"
    using key nin assms(1) by auto
  ultimately show "trigger exec (trigger_event ev m) m' = Some (Inr (False, m'))"
    using res by (simp add: trigger_def Let_def ev')
qed

text \<open>
  C1: a trigger for which no node on the parent chain of the active state has
  a registered transition is claimed to be logged whenever it is fired. The
  trigger \<open>jump\<close> is fired twice from \<open>A.B.D\<close>, which ignores invalid
  triggers; no node of the tree has a transition registered for it. The first
  call logs the message and returns \<^verbatim>\<open>False\<close>. Line 116 has then entered the name
  of the root, \<open>A\<close>, in the table, with no transition: the nodes of the chain
  still have no transition registered, but the second call returns \<^verbatim>\<open>False\<close>
  and the log is as it was after the first.
\<close>

theorem second_ignored_trigger_not_logged:
  "trigger (execute (\<lambda>c m. True)) jump_event (tree_machine st_D) =
     Some (Inr (False,
       (tree_machine st_D)\<lparr>log := [''Can't trigger event jump from state A.B.D!'']\<rparr>)) \<and>
   trigger_event jump_event (tree_machine st_D) =
     \<lparr>ename = ''jump'', transitions = [(''X'', [go ''X'' ''A.C'']), (''A'', [])]\<rparr> \<and>
   map (\<lambda>n. transitions_for (transitions (trigger_event jump_event (tree_machine st_D))) (name n))
     (chain st_D) = [[], [], []] \<and>
   trigger (execute (\<lambda>c m. True)) (trigger_event jump_event (tree_machine st_D))
       ((tree_machine st_D)\<lparr>log := [''Can't trigger event jump from state A.B.D!'']\<rparr>) =
     Some (Inr (False,
       (tree_machine st_D)\<lparr>log := [''Can't trigger event jump from state A.B.D!'']\<rparr>))"
  by code_simp

text \<open>
  C6: the transitions \<^verbatim>\<open>trigger\<close> executes are those registered for the first node
  on the parent chain of the active state, the state itself included, whose
  qualified name has a registration. So a trigger declared on an ancestor
  \<open>n\<close> only (\<open>nearer\<close> are the nodes below it on the chain) is run from the
  descendant, and a declaration on a nearer node hides those farther up.
\<close>

theorem trigger_nearest_declaration:
  assumes "chain (current_state m) = nearer @ n # farther"
    and "\<forall>x \<in> set nearer. name x \<notin> fst ` set (transitions ev)"
    and "name n \<in> fst ` set (transitions ev)"
  shows "trigger exec ev m = run_transitions exec (transitions_for (transitions ev) (name n)) m"
proof -
  have "find (\<lambda>n. name n \<in> fst ` set (transitions ev)) (chain (current_state m)) = Some n"
    unfolding assms(1)
    by (rule find_first [where P = "\<lambda>n. name n \<in> fst ` set (transitions ev)"])
       (use assms(2,3) in simp_all)
  then have "resolve (transitions ev) (current_state m) = n"
    by (simp add: resolve_find)
  then show ?thesis
    using assms(3) by (simp add: trigger_def Let_def)
qed

theorem trigger_nearest_declaration_witness:
  "trigger (execute (\<lambda>c m. True)) go_event (tree_machine st_D) =
     Some (Inr (True,
       (tree_machine st_D)\<lparr>current_state := st_E, hooks := [Exit st_D, Enter st_E]\<rparr>))"
proof -
  have "trigger (execute (\<lambda>c m. True)) go_event (tree_machine st_D) =
        run_transitions (execute (\<lambda>c m. True))
          (transitions_for (transitions go_event) (name st_B)) (tree_machine st_D)"
    by (rule trigger_nearest_declaration [where nearer = "[st_D]" and farther = "[st_A]"])
       (simp_all add: tree_machine_def st_defs go_event_def separator_def)
  also have "\<dots> = Some (Inr (True,
       (tree_machine st_D)\<lparr>current_state := st_E, hooks := [Exit st_D, Enter st_E]\<rparr>))"
    by code_simp
  finally show ?thesis .
qed

section \<open>Chains and common ancestors\<close>

lemma lcp_snoc_neq:
  "length xs = length ys \<Longrightarrow> a \<noteq> b \<Longrightarrow>
     longest_common_prefix (xs @ [a]) (ys @ [b]) = longest_common_prefix xs ys"
  by (induction xs ys rule: list_induct2) simp_all

lemma lcp_snoc_left:
  "length ys \<le> length xs \<Longrightarrow>
     longest_common_prefix (xs @ [a]) ys = longest_common_prefix xs ys"
proof (induction xs arbitrary: ys)
  case Nil
  then show ?case by simp
next
  case (Cons x xs)
  then show ?case by (cases ys) simp_all
qed

lemma lcp_snoc_right:
  "length xs \<le> length ys \<Longrightarrow>
     longest_common_prefix xs (ys @ [b]) = longest_common_prefix xs ys"
proof (induction xs arbitrary: ys)
  case Nil
  then show ?case by simp
next
  case (Cons x xs)
  then show ?case by (cases ys) simp_all
qed

lemma lcp_same: "longest_common_prefix xs xs = xs"
  by (induction xs) simp_all

lemma lcp_length: "length (longest_common_prefix xs ys) \<le> length xs"
  by (induction xs ys rule: longest_common_prefix.induct) simp_all

lemma lcp_length2: "length (longest_common_prefix xs ys) \<le> length ys"
  by (induction xs ys rule: longest_common_prefix.induct) simp_all

lemma chain_parent: "parent s = Some p \<Longrightarrow> chain s = s # chain p"
  by (cases s rule: chain.cases) simp_all

lemma chain_root: "parent s = None \<Longrightarrow> chain s = [s]"
  by (cases s rule: chain.cases) simp_all

lemma level_parent: "parent s = Some p \<Longrightarrow> level s = level p + 1"
  by (cases s rule: level.cases) simp_all

lemma level_root: "parent s = None \<Longrightarrow> level s = 0"
  by (cases s rule: level.cases) simp_all

lemma length_chain: "length (chain s) = level s + 1"
  by (induction s rule: chain.induct) simp_all

lemma level_pos_parent: "0 < level s \<Longrightarrow> \<exists>p. parent s = Some p"
  by (cases s rule: level.cases) simp_all

lemma common_ancestors_length:
  "length (common_ancestors s t) \<le> level s" "length (common_ancestors s t) \<le> level t"
  using lcp_length [of "rev (tl (chain s))" "rev (tl (chain t))"]
    lcp_length2 [of "rev (tl (chain s))" "rev (tl (chain t))"]
  by (simp_all add: common_ancestors_def length_chain)

section \<open>Entering\<close>

lemma enter_nested_eq:
  "l = int (level s) \<Longrightarrow> enter_nested s (Some l) tr = Inr (tr @ [Enter s])"
  by (simp add: enter_nested.simps)

lemma enter_nested_neq:
  "l \<noteq> int (level s) \<Longrightarrow> enter_nested s (Some l) tr =
     (case parent s of
        None \<Rightarrow> Inl AttributeError
      | Some p \<Rightarrow>
          (case enter_nested p (Some l) tr of
             Inl e \<Rightarrow> Inl e
           | Inr tr' \<Rightarrow> Inr (tr' @ [Enter s])))"
  by (subst enter_nested.simps) simp

lemma enter_nested_completes:
  "0 \<le> l \<Longrightarrow> l \<le> int (level s) \<Longrightarrow> \<exists>tr'. enter_nested s (Some l) tr = Inr tr'"
proof (induction s)
  case (NestedState n i p)
  show ?case
  proof (cases "l = int (level (NestedState n i p))")
    case True
    then show ?thesis by (simp add: enter_nested_eq)
  next
    case False
    show ?thesis
    proof (cases p)
      case None
      then show ?thesis using NestedState.prems False by simp
    next
      case (Some q)
      then have "l \<le> int (level q)" using NestedState.prems False by simp
      with NestedState.IH [of q] Some NestedState.prems
      obtain tr' where "enter_nested q (Some l) tr = Inr tr'"
        by auto
      then show ?thesis using False Some by (simp add: enter_nested_neq)
    qed
  qed
qed

lemma enter_nested_raises:
  "l < 0 \<or> int (level s) < l \<Longrightarrow> enter_nested s (Some l) tr = Inl AttributeError"
proof (induction s)
  case (NestedState n i p)
  have neq: "l \<noteq> int (level (NestedState n i p))" using NestedState.prems by auto
  show ?case
  proof (cases p)
    case None
    then show ?thesis using neq by (simp add: enter_nested_neq)
  next
    case (Some q)
    have "l < 0 \<or> int (level q) < l" using NestedState.prems Some by auto
    with NestedState.IH [of q] Some have "enter_nested q (Some l) tr = Inl AttributeError"
      by auto
    then show ?thesis using Some neq by (simp add: enter_nested_neq)
  qed
qed

lemma enter_nested_hooks:
  "l \<le> level s \<Longrightarrow>
     enter_nested s (Some (int l)) tr =
       Inr (tr @ map Enter (rev (take (level s + 1 - l) (chain s))))"
proof (induction s)
  case (NestedState n i p)
  let ?s = "NestedState n i p"
  show ?case
  proof (cases "l = level ?s")
    case True
    obtain r where "chain ?s = ?s # r" by (cases p) simp_all
    then show ?thesis using True by (simp add: enter_nested_eq)
  next
    case False
    then obtain q where q: "p = Some q" using NestedState.prems by (cases p) simp_all
    then have l: "l \<le> level q" using NestedState.prems False by simp
    have "enter_nested q (Some (int l)) tr =
       Inr (tr @ map Enter (rev (take (level q + 1 - l) (chain q))))"
      using NestedState.IH [of q] q l by simp
    moreover have "take (level ?s + 1 - l) (chain ?s) = ?s # take (level q + 1 - l) (chain q)"
      using q l by (simp add: Suc_diff_le)
    ultimately show ?thesis
      using False q by (simp add: enter_nested_neq)
  qed
qed

text \<open>
  C10: \<^verbatim>\<open>enter_nested\<close> returns only when the stop level is \<^verbatim>\<open>None\<close> or at most the
  level of the node; a stop level above the level of the node makes the
  recursion reach a parent that is \<^verbatim>\<open>None\<close>, which raises. (The guard is an
  inequality test, so a negative stop level raises as well; with a stop level
  from 0 to the level of the node the call returns.)
\<close>

theorem enter_nested_stop_level:
  "(enter_nested s lvl tr = Inr tr' \<longrightarrow>
      lvl = None \<or> (\<exists>l. lvl = Some l \<and> 0 \<le> l \<and> l \<le> int (level s))) \<and>
   (int (level s) < k \<longrightarrow> enter_nested s (Some k) tr = Inl AttributeError) \<and>
   (lvl = None \<or> (\<exists>l. lvl = Some l \<and> 0 \<le> l \<and> l \<le> int (level s)) \<longrightarrow>
      (\<exists>tr''. enter_nested s lvl tr = Inr tr''))"
proof (intro conjI impI)
  assume ok: "enter_nested s lvl tr = Inr tr'"
  show "lvl = None \<or> (\<exists>l. lvl = Some l \<and> 0 \<le> l \<and> l \<le> int (level s))"
  proof (cases lvl)
    case None
    then show ?thesis by simp
  next
    case (Some l)
    have "\<not> (l < 0 \<or> int (level s) < l)"
      using enter_nested_raises [of l s tr] ok Some by auto
    then show ?thesis using Some by auto
  qed
next
  assume "int (level s) < k"
  then show "enter_nested s (Some k) tr = Inl AttributeError"
    by (simp add: enter_nested_raises)
next
  assume "lvl = None \<or> (\<exists>l. lvl = Some l \<and> 0 \<le> l \<and> l \<le> int (level s))"
  then show "\<exists>tr''. enter_nested s lvl tr = Inr tr''"
    using enter_nested_completes [of _ s tr] by (auto simp: enter_nested.simps [of s None])
qed

theorem enter_nested_stop_level_witness:
  "enter_nested st_D (Some 1) [] = Inr [Enter st_B, Enter st_D] \<and>
   enter_nested st_D (Some 3) [] = Inl AttributeError \<and>
   (\<exists>tr''. enter_nested st_D (Some 2) [] = Inr tr'')"
proof -
  have run: "enter_nested st_D (Some 1) [] = Inr [Enter st_B, Enter st_D]"
    by code_simp
  have lv: "int (level st_D) = 2"
    by (simp add: st_defs)
  from enter_nested_stop_level [of st_D "Some 1" "[]" "[Enter st_B, Enter st_D]" 3]
  have "Some (1::int) = None \<or> (\<exists>l. Some 1 = Some l \<and> 0 \<le> l \<and> l \<le> int (level st_D))"
    and "enter_nested st_D (Some 3) [] = Inl AttributeError"
    using run lv by simp_all
  moreover from enter_nested_stop_level [of st_D "Some 2" "[]" "[]" 3]
  have "\<exists>tr''. enter_nested st_D (Some 2) [] = Inr tr''"
    using lv by simp
  ultimately show ?thesis using run by simp
qed

section \<open>Exiting\<close>

lemma align_loop_Some_level:
  assumes "align_loop self target tmp = Some r"
  shows "(\<exists>p. parent target = Some p \<and> level self \<noteq> level p) \<longrightarrow>
     (case tmp of None \<Rightarrow> True | Some t \<Rightarrow> level self = level t)"
proof (rule align_loop.raw_induct [where P = "\<lambda>s tg tm r.
     (\<exists>p. parent tg = Some p \<and> level s \<noteq> level p) \<longrightarrow>
     (case tm of None \<Rightarrow> True | Some t \<Rightarrow> level s = level t)", OF _ assms])
  fix f s tg tm y
  assume IH: "\<And>s tg tm y. f s tg tm = Some y \<Longrightarrow>
      (\<exists>p. parent tg = Some p \<and> level s \<noteq> level p) \<longrightarrow>
      (case tm of None \<Rightarrow> True | Some t \<Rightarrow> level s = level t)"
    and body: "(case tm of None \<Rightarrow> Some (Inl AttributeError)
      | Some t \<Rightarrow> if level s \<noteq> level t then f s tg (parent tg) else Some (Inr t)) = Some y"
  show "(\<exists>p. parent tg = Some p \<and> level s \<noteq> level p) \<longrightarrow>
     (case tm of None \<Rightarrow> True | Some t \<Rightarrow> level s = level t)"
  proof (cases tm)
    case None
    then show ?thesis by simp
  next
    case (Some t)
    show ?thesis
    proof (cases "level s = level t")
      case True
      then show ?thesis using Some by simp
    next
      case False
      with body Some have "f s tg (parent tg) = Some y" by simp
      from IH [OF this] show ?thesis by (auto split: option.splits)
    qed
  qed
qed

text \<open>
  The alignment loop does not return when the node it starts from and the
  parent of the target are both at another level than \<open>self\<close>.
\<close>

lemma align_loop_diverges:
  assumes "parent target = Some p" "level self \<noteq> level p" "level self \<noteq> level t"
  shows "align_loop self target (Some t) = None"
proof (cases "align_loop self target (Some t)")
  case None
  then show ?thesis .
next
  case (Some r)
  from align_loop_Some_level [OF Some] assms show ?thesis by simp
qed

lemma exit_nested_diverges:
  assumes "0 < level self" "level self + 2 \<le> level target"
  shows "exit_nested self (Some target) tr = None"
proof -
  obtain p where p: "parent target = Some p" "level target = level p + 1"
    using assms by (cases target rule: level.cases) auto
  have "align_loop self target (Some target) = None"
    using assms p by (intro align_loop_diverges [of target p]) auto
  then show ?thesis using assms by (simp add: exit_nested.simps)
qed

lemma exit_nested_all:
  "exit_nested s None tr = Some (Inr (0, tr @ map Exit (chain s)))"
proof (induction s arbitrary: tr)
  case (NestedState n i p)
  show ?case
  proof (cases p)
    case None
    then show ?thesis by (simp add: exit_nested.simps)
  next
    case (Some q)
    with NestedState.IH [of q] show ?thesis
      by (subst exit_nested.simps) simp
  qed
qed

lemma exit_nested_root_level:
  assumes "level s = 0 \<or> level t = 0"
  shows "exit_nested s (Some t) tr = Some (Inr (0, tr @ map Exit (chain s)))"
proof (cases "parent s")
  case None
  then show ?thesis using assms
    by (subst exit_nested.simps) (auto simp: chain_root)
next
  case (Some q)
  then show ?thesis using assms
    by (subst exit_nested.simps) (auto simp: chain_parent exit_nested_all level_parent)
qed


lemma chain_tl_parent: "parent s = Some p \<Longrightarrow> tl (chain s) = chain p"
  by (simp add: chain_parent)

lemma chain_self: "s \<in> set (chain s)"
  by (cases s rule: chain.cases) simp_all

lemma chain_parent_subset: "parent s = Some p \<Longrightarrow> set (chain p) \<subseteq> set (chain s)"
  by (auto simp: chain_parent)

lemma level_zero_parent: "level s = 0 \<Longrightarrow> parent s = None"
  by (cases s rule: level.cases) simp_all

lemma exit_loop_hooks:
  assumes "level s = level t"
    and "inj_on name (set (chain s) \<union> set (chain t))"
  shows "exit_loop s t tr =
     Inr (chain s ! (level s - length (common_ancestors s t)),
          tr @ map Exit (take (level s - length (common_ancestors s t)) (chain s)))"
  using assms
proof (induction "level s" arbitrary: s t tr)
  case 0
  then have "parent s = None" by (simp add: level_zero_parent)
  then show ?case using 0
    by (subst exit_loop.simps) (simp add: chain_root)
next
  case (Suc m)
  from Suc.hyps(2) obtain ps where ps: "parent s = Some ps"
    using level_pos_parent [of s] by auto
  from Suc.hyps(2) Suc.prems(1) obtain pt where pt: "parent t = Some pt"
    using level_pos_parent [of t] by auto
  have lps: "level ps = m" using Suc.hyps(2) ps by (simp add: level_parent)
  have lv: "level ps = level pt"
    using Suc.prems(1) ps pt by (simp add: level_parent)
  have k: "common_ancestors s t =
      rev (longest_common_prefix (rev (chain ps)) (rev (chain pt)))"
    by (simp add: common_ancestors_def chain_tl_parent [OF pt] chain_tl_parent [OF ps])
  have pos: "0 < level s" using Suc.hyps(2) by simp
  show ?case
  proof (cases "name pt = name ps")
    case True
    have "pt \<in> set (chain s) \<union> set (chain t)" "ps \<in> set (chain s) \<union> set (chain t)"
      using chain_self [of pt] chain_self [of ps] chain_parent_subset [OF pt]
        chain_parent_subset [OF ps] by auto
    with True Suc.prems(2) have "pt = ps"
      by (auto dest: inj_onD)
    then have "length (common_ancestors s t) = level s"
      using k by (simp add: lcp_same length_chain level_parent [OF ps])
    then show ?thesis
      using True pt ps pos chain_self [of s]
      by (subst exit_loop.simps) (simp add: chain_parent [OF ps])
  next
    case False
    then have neq: "ps \<noteq> pt" by auto
    obtain rs where rs: "chain ps = ps # rs" by (cases ps rule: chain.cases) simp_all
    obtain rt where rt: "chain pt = pt # rt" by (cases pt rule: chain.cases) simp_all
    have len: "length rs = length rt"
      using lv length_chain [of ps] length_chain [of pt] rs rt by simp
    have k': "common_ancestors s t = common_ancestors ps pt"
      unfolding k using neq len by (simp add: common_ancestors_def rs rt lcp_snoc_neq)
    have inj: "inj_on name (set (chain ps) \<union> set (chain pt))"
      using Suc.prems(2) chain_parent_subset [OF pt] chain_parent_subset [OF ps]
      by (auto intro: inj_on_subset)
    have le: "length (common_ancestors ps pt) \<le> level ps"
      by (rule common_ancestors_length)
    have IH: "exit_loop ps pt (tr @ [Exit s]) =
       Inr (chain ps ! (level ps - length (common_ancestors ps pt)),
            (tr @ [Exit s]) @ map Exit (take (level ps - length (common_ancestors ps pt)) (chain ps)))"
      using Suc.hyps(1) [of ps pt "tr @ [Exit s]"] lps lv inj by simp
    have step: "level s - length (common_ancestors ps pt) =
        Suc (level ps - length (common_ancestors ps pt))"
      using le by (simp add: level_parent [OF ps] Suc_diff_le)
    show ?thesis
      using False pt ps pos IH
      by (subst exit_loop.simps) (simp add: k' step chain_parent [OF ps])
  qed
qed

lemma align_loop_same_level:
  "level self = level t \<Longrightarrow> align_loop self target (Some t) = Some (Inr t)"
  by (subst align_loop.simps) simp

lemma align_loop_one_deeper:
  assumes "parent target = Some pt" "level target = level self + 1"
  shows "align_loop self target (Some target) = Some (Inr pt)"
proof -
  have "level self = level pt" using assms by (simp add: level_parent)
  then have "align_loop self target (Some pt) = Some (Inr pt)"
    by (rule align_loop_same_level)
  then show ?thesis using assms by (subst align_loop.simps) simp
qed


lemma level_chain_nth: "j \<le> level s \<Longrightarrow> level (chain s ! j) = level s - j"
proof (induction s arbitrary: j rule: chain.induct)
  case (1 n i)
  then show ?case by simp
next
  case (2 n i p)
  then show ?case by (cases j) simp_all
qed

lemma exit_nested_aligned:
  assumes "0 < level t" "0 < level s" "level s \<le> level t" "level t \<le> level s + 1"
    and "inj_on name (set (chain s) \<union> set (chain t))"
  shows "exit_nested s (Some t) tr =
     Some (Inr (length (common_ancestors s t),
                tr @ map Exit (take (level s + 1 - length (common_ancestors s t)) (chain s))))"
proof -
  obtain pt where pt: "parent t = Some pt"
    using assms(1) level_pos_parent by blast
  define tmp where "tmp = (if level s = level t then t else pt)"
  have lv: "level s = level tmp"
    using assms(3,4) pt by (auto simp: tmp_def level_parent)
  have al: "align_loop s t (Some t) = Some (Inr tmp)"
    using assms(3,4) pt
    by (auto simp: tmp_def align_loop_same_level intro!: align_loop_one_deeper)
  have sub: "set (chain tmp) \<subseteq> set (chain t)"
    using chain_parent_subset [OF pt] by (simp add: tmp_def)
  have inj: "inj_on name (set (chain s) \<union> set (chain tmp))"
    using assms(5) sub by (auto intro: inj_on_subset)
  have k: "common_ancestors s tmp = common_ancestors s t"
  proof (cases "level s = level t")
    case True
    then show ?thesis by (simp add: tmp_def)
  next
    case False
    then have tmp: "tmp = pt" by (simp add: tmp_def)
    obtain rt where rt: "chain pt = pt # rt" by (cases pt rule: chain.cases) simp_all
    have "length (rev (tl (chain s))) \<le> length (rev rt)"
      using lv tmp length_chain [of pt] length_chain [of s] rt by simp
    then show ?thesis
      by (simp add: common_ancestors_def tmp chain_tl_parent [OF pt] rt lcp_snoc_right)
  qed
  let ?k = "length (common_ancestors s t)"
  let ?j = "level s - ?k"
  have le: "?k \<le> level s" by (rule common_ancestors_length)
  have loop: "exit_loop s tmp tr = Inr (chain s ! ?j, tr @ map Exit (take ?j (chain s)))"
    using exit_loop_hooks [OF lv inj, of tr] by (simp add: k)
  have lvl: "level (chain s ! ?j) = ?k"
    using le by (simp add: level_chain_nth)
  have "?j < length (chain s)" by (simp add: length_chain)
  then have tk: "take ?j (chain s) @ [chain s ! ?j] = take (level s + 1 - ?k) (chain s)"
    using le by (simp add: take_Suc_conv_app_nth [symmetric] Suc_diff_le)
  have "map Exit (take ?j (chain s)) @ [Exit (chain s ! ?j)] =
      map Exit (take (level s + 1 - ?k) (chain s))"
    using arg_cong [OF tk, of "map Exit"] by simp
  then show ?thesis
    using assms(1,2,3) al loop lvl
    by (subst exit_nested.simps) simp
qed

lemma exit_nested_hooks:
  assumes "0 < level t" "0 < level s" "level t \<le> level s + 1"
    and "inj_on name (set (chain s) \<union> set (chain t))"
  shows "exit_nested s (Some t) tr =
     Some (Inr (length (common_ancestors s t),
                tr @ map Exit (take (level s + 1 - length (common_ancestors s t)) (chain s))))"
  using assms
proof (induction "level s" arbitrary: s tr)
  case 0
  then show ?case by simp
next
  case (Suc m)
  show ?case
  proof (cases "level s \<le> level t")
    case True
    then show ?thesis
      using Suc.prems by (intro exit_nested_aligned) simp_all
  next
    case False
    obtain ps where ps: "parent s = Some ps"
      using Suc.prems(2) level_pos_parent by blast
    have lps: "level ps = m" using Suc.hyps(2) ps by (simp add: level_parent)
    have ge: "level t \<le> level ps" using False ps by (simp add: level_parent)
    have inj: "inj_on name (set (chain ps) \<union> set (chain t))"
      using Suc.prems(4) chain_parent_subset [OF ps] by (auto intro: inj_on_subset)
    have IH: "exit_nested ps (Some t) (tr @ [Exit s]) =
       Some (Inr (length (common_ancestors ps t),
                  (tr @ [Exit s]) @
                  map Exit (take (level ps + 1 - length (common_ancestors ps t)) (chain ps))))"
      using Suc.hyps(1) [of ps "tr @ [Exit s]"] lps ge Suc.prems(1) inj by simp
    obtain rs where rs: "chain ps = ps # rs" by (cases ps rule: chain.cases) simp_all
    have "length (rev (tl (chain t))) \<le> length (rev rs)"
      using ge length_chain [of ps] length_chain [of t] rs by simp
    then have k: "common_ancestors s t = common_ancestors ps t"
      by (simp add: common_ancestors_def chain_tl_parent [OF ps] rs lcp_snoc_left)
    have le: "length (common_ancestors ps t) \<le> level ps"
      by (rule common_ancestors_length)
    have tk: "take (Suc (level s) - length (common_ancestors ps t)) (chain s) =
        s # take (Suc (level ps) - length (common_ancestors ps t)) (chain ps)"
      using le by (simp add: chain_parent [OF ps] level_parent [OF ps] Suc_diff_le)
    show ?thesis
      using False Suc.prems(1,2) ps IH
      by (subst exit_nested.simps) (simp add: k tk)
  qed
qed

text \<open>
  Where the alignment loop returns, that is, when the destination is at most
  one level deeper than the active state or one of the two is at level 0, a
  transition fires the exit hooks of the active state and of its ancestors
  below the deepest common ancestor, the leaf first, and then the enter hooks
  of the destination and of its ancestors below the deepest common ancestor,
  the leaf last: with \<open>k\<close> common ancestors, \<open>N + 1 - k\<close> exit hooks and
  \<open>M + 1 - k\<close> enter hooks, and none on a common ancestor. The qualified names
  of the nodes on the two chains are distinct, as the spec requires of a
  machine.
\<close>

lemma change_state_hooks:
  assumes "get_state m (dest t) = Inr dst"
    and "level dst \<le> level (current_state m) + 1 \<or> level (current_state m) = 0 \<or> level dst = 0"
    and "inj_on name (set (chain (current_state m)) \<union> set (chain dst))"
  shows "change_state t m =
     Some (Inr (m\<lparr>current_state := dst,
       hooks := hooks m @
         map Exit (take (level (current_state m) + 1 -
                         length (common_ancestors (current_state m) dst))
                     (chain (current_state m))) @
         map Enter (rev (take (level dst + 1 -
                              length (common_ancestors (current_state m) dst))
                          (chain dst)))\<rparr>))"
proof -
  let ?src = "current_state m"
  let ?k = "length (common_ancestors ?src dst)"
  have ex: "exit_nested ?src (Some dst) (hooks m) =
      Some (Inr (?k, hooks m @ map Exit (take (level ?src + 1 - ?k) (chain ?src))))"
  proof (cases "level ?src = 0 \<or> level dst = 0")
    case True
    then have "chain ?src = [?src] \<or> chain dst = [dst]"
      by (auto simp: chain_root level_zero_parent)
    then have "?k = 0" by (auto simp: common_ancestors_def)
    then show ?thesis
      using exit_nested_root_level [OF True, of "hooks m"] by (simp add: length_chain)
  next
    case False
    with assms(2,3) show ?thesis by (intro exit_nested_hooks) auto
  qed
  have "?k \<le> level dst" by (rule common_ancestors_length)
  then have en: "enter_nested dst (Some (int ?k)) tr =
      Inr (tr @ map Enter (rev (take (level dst + 1 - ?k) (chain dst))))" for tr
    by (rule enter_nested_hooks)
  show ?thesis
    by (simp add: change_state_def assms(1) ex en)
qed

text \<open>The two transition scenarios of the spec, on the example tree.\<close>

lemma scenario_D_to_C:
  "change_state (go ''A.B.D'' ''A.C'') (tree_machine st_D) =
     Some (Inr ((tree_machine st_D)
       \<lparr>current_state := st_C, hooks := [Exit st_D, Exit st_B, Enter st_C]\<rparr>))"
  by code_simp

lemma scenario_B_to_C:
  "change_state (go ''A.B'' ''A.C'') (tree_machine st_B) =
     Some (Inr ((tree_machine st_B)\<lparr>current_state := st_C, hooks := [Exit st_B, Enter st_C]\<rparr>))"
  by code_simp

text \<open>
  C2: \<^verbatim>\<open>exit_nested\<close> is claimed to return for every source and destination below
  the root. From \<open>A.C\<close> (level 1) towards \<open>A.B.D.F\<close> (level 3) it does not
  return: the alignment loop assigns \<^verbatim>\<open>target_state.parent\<close> again and again.
\<close>

theorem exit_nested_two_levels_deeper_diverges:
  "level st_C = 1 \<and> level st_F = 3 \<and> exit_nested st_C (Some st_F) [] = None"
proof -
  have "exit_nested st_C (Some st_F) [] = None"
    by (rule exit_nested_diverges) (simp_all add: st_defs)
  then show ?thesis by (simp add: st_defs)
qed

text \<open>
  C3: a transition is claimed to fire \<open>N - L\<close> exit hooks and \<open>M - L\<close> enter
  hooks. With the active state \<open>A.C\<close> (\<open>N = 1\<close>) and the destination \<open>A.B.D.F\<close>
  (\<open>M = 3\<close>), whose deepest common ancestor is \<open>A\<close> (\<open>L = 0\<close>),
  \<^verbatim>\<open>_change_state\<close> does not return, so no hook sequence is completed.
\<close>

theorem change_state_two_levels_deeper_diverges:
  "change_state (go ''A.C'' ''A.B.D.F'') (tree_machine st_C) = None"
proof -
  have "get_state (tree_machine st_C) ''A.B.D.F'' = Inr st_F"
    by (simp add: get_state_def tree_machine_def st_defs separator_def)
  moreover have "exit_nested st_C (Some st_F) [] = None"
    by (rule exit_nested_diverges) (simp_all add: st_defs)
  ultimately show ?thesis
    by (simp add: change_state_def go_def) (simp add: tree_machine_def)
qed

section \<open>The trigger namespace\<close>

lemma map_of_update: "map_of (AList.update k v al) k' = (if k' = k then Some v else map_of al k')"
  by (simp add: update_conv')

lemma attr_name_not_digit: "seg \<noteq> [] \<Longrightarrow> \<not> isdigit (hd (attr_name seg))"
  by (cases seg) (simp_all add: attr_name_def isdigit_def)

lemma attr_name_func: "attr_name seg = ''_func'' \<longleftrightarrow> seg = ''_func''"
  by (cases seg) (auto simp add: attr_name_def isdigit_def)

lemma add_Nil [simp]:
  "add cls func [] self = Inr (AList.update ''_func'' (Func (Some func)) self)"
  by (simp add: add.simps)

lemma add_Cons [simp]:
  "add cls func (seg # rest) self =
     (if seg = [] then Inl IndexError
      else
        if hasattr cls self (attr_name seg) then
          (case map_of self (attr_name seg) of
             Some (Wrap child) \<Rightarrow>
               (case add cls func rest child of
                  Inl e \<Rightarrow> Inl e
                | Inr child' \<Rightarrow> Inr (AList.update (attr_name seg) (Wrap child') self))
           | Some (Func f) \<Rightarrow> Inl AttributeError
           | None \<Rightarrow> Inl (case cls (attr_name seg) of Some e \<Rightarrow> e | None \<Rightarrow> AttributeError))
        else
          (case FunctionWrapper cls func rest of
             Inl e \<Rightarrow> Inl e
           | Inr x \<Rightarrow> Inr (AList.update (attr_name seg) (Wrap x) self)))"
  by (simp add: add.simps [of cls func "seg # rest"])

lemma FunctionWrapper_Nil [simp]:
  "FunctionWrapper cls func [] = Inr [(''_func'', Func (Some func))]"
  by (simp add: FunctionWrapper.simps)

lemma FunctionWrapper_Cons:
  "FunctionWrapper cls func (seg # rest) =
     (case add cls func (seg # rest) [] of
        Inl e \<Rightarrow> Inl e
      | Inr self \<Rightarrow> Inr (AList.update ''_func'' (Func None) self))"
  by (simp add: FunctionWrapper.simps [of cls func "seg # rest"])

lemma add_segments_nonempty:
  "(\<forall>self self'. add cls func path self = Inr self' \<longrightarrow> [] \<notin> set path) \<and>
   (\<forall>w. FunctionWrapper cls func path = Inr w \<longrightarrow> [] \<notin> set path)"
proof (induction path)
  case Nil
  then show ?case by simp
next
  case (Cons seg rest)
  have a: "[] \<notin> set (seg # rest)" if "add cls func (seg # rest) self = Inr self'" for self self'
    using that Cons by (auto split: if_splits option.splits attr.splits sum.splits)
  then show ?case
    by (auto simp: FunctionWrapper_Cons simp del: add_Cons split: sum.splits)
qed

lemma add_keeps:
  "add cls func path self = Inr self' \<Longrightarrow> i \<le> length path \<Longrightarrow>
   descend self (map attr_name (take i path)) = Some N \<Longrightarrow>
   \<exists>N'. descend self' (map attr_name (take i path)) = Some N' \<and>
     (\<forall>k. k \<noteq> (if i < length path then attr_name (path ! i) else ''_func'') \<longrightarrow>
        map_of N' k = map_of N k)"
proof (induction path arbitrary: self self' i N)
  case Nil
  then show ?case by (auto simp: map_of_update)
next
  case (Cons seg rest)
  show ?case
  proof (cases i)
    case 0
    with Cons.prems show ?thesis
      by (auto simp: map_of_update split: if_splits option.splits attr.splits sum.splits)
  next
    case (Suc j)
    with Cons.prems obtain c where c: "map_of self (attr_name seg) = Some (Wrap c)"
      "descend c (map attr_name (take j rest)) = Some N"
      by (auto split: option.splits attr.splits)
    then have "hasattr cls self (attr_name seg)"
      by (auto simp: hasattr_def dest: map_of_SomeD intro: rev_image_eqI)
    with Cons.prems(1) c obtain c' where c': "add cls func rest c = Inr c'"
      "self' = AList.update (attr_name seg) (Wrap c') self"
      by (auto split: if_splits sum.splits)
    from Cons.IH [OF c'(1) _ c(2)] Cons.prems(2) Suc
    obtain N' where "descend c' (map attr_name (take j rest)) = Some N'"
      "\<forall>k. k \<noteq> (if j < length rest then attr_name (rest ! j) else ''_func'') \<longrightarrow>
        map_of N' k = map_of N k"
      by auto
    then show ?thesis using Suc c' by (simp add: map_of_update)
  qed
qed

lemma add_reaches:
  "''_func'' \<notin> set path \<Longrightarrow>
   (\<forall>self self'. add cls func path self = Inr self' \<longrightarrow>
      (\<exists>T. descend self' (map attr_name path) = Some T \<and>
           map_of T ''_func'' = Some (Func (Some func)))) \<and>
   (\<forall>w. FunctionWrapper cls func path = Inr w \<longrightarrow>
      (\<exists>T. descend w (map attr_name path) = Some T \<and>
           map_of T ''_func'' = Some (Func (Some func))))"
proof (induction path)
  case Nil
  then show ?case by (simp add: map_of_update)
next
  case (Cons seg rest)
  then have IH: "\<And>self self'. add cls func rest self = Inr self' \<Longrightarrow>
      \<exists>T. descend self' (map attr_name rest) = Some T \<and> map_of T ''_func'' = Some (Func (Some func))"
    "\<And>w. FunctionWrapper cls func rest = Inr w \<Longrightarrow>
      \<exists>T. descend w (map attr_name rest) = Some T \<and> map_of T ''_func'' = Some (Func (Some func))"
    and seg: "attr_name seg \<noteq> ''_func''"
    by (auto simp: attr_name_func)
  have a: "\<exists>T. descend self' (map attr_name (seg # rest)) = Some T \<and>
      map_of T ''_func'' = Some (Func (Some func))"
    if "add cls func (seg # rest) self = Inr self'" for self self'
    using that IH by (auto simp: map_of_update split: if_splits option.splits attr.splits sum.splits)
  have "\<exists>T. descend w (map attr_name (seg # rest)) = Some T \<and>
      map_of T ''_func'' = Some (Func (Some func))"
    if "FunctionWrapper cls func (seg # rest) = Inr w" for w
  proof -
    from that obtain self where s: "add cls func (seg # rest) [] = Inr self"
      and w: "w = AList.update ''_func'' (Func None) self"
      by (auto simp: FunctionWrapper_Cons simp del: add_Cons split: sum.splits)
    from a [OF s] obtain T where "descend self (map attr_name (seg # rest)) = Some T"
      "map_of T ''_func'' = Some (Func (Some func))" by blast
    then show ?thesis using w seg by (simp add: map_of_update)
  qed
  with a show ?case by blast
qed

text \<open>
  C8: when \<^verbatim>\<open>add\<close> returns, every node that existed along the path is still
  there (it was descended into, not replaced), and each of its attributes
  other than the next segment of the path is unchanged: the sibling subtrees
  and its own callable. At the node the path ends in, only \<^verbatim>\<open>_func\<close> changes.
  No segment is stored under a name that starts with a digit: a segment that
  starts with a digit is stored under the segment prefixed with \<open>_\<close>. When no
  segment is named \<open>_func\<close>, the callable is found under the stored names.
\<close>

theorem add_keeps_siblings:
  assumes "add cls func path self = Inr self'"
  shows "(\<forall>i \<le> length path. \<forall>N. descend self (map attr_name (take i path)) = Some N \<longrightarrow>
            (\<exists>N'. descend self' (map attr_name (take i path)) = Some N' \<and>
               (\<forall>k. k \<noteq> (if i < length path then attr_name (path ! i) else ''_func'') \<longrightarrow>
                    map_of N' k = map_of N k))) \<and>
         (\<forall>seg \<in> set path. seg \<noteq> [] \<and> \<not> isdigit (hd (attr_name seg)) \<and>
            (isdigit (hd seg) \<longrightarrow> attr_name seg = CHR ''_'' # seg)) \<and>
         (''_func'' \<notin> set path \<longrightarrow>
            (\<exists>T. descend self' (map attr_name path) = Some T \<and>
                 map_of T ''_func'' = Some (Func (Some func))))"
proof (intro conjI)
  show "\<forall>i \<le> length path. \<forall>N. descend self (map attr_name (take i path)) = Some N \<longrightarrow>
            (\<exists>N'. descend self' (map attr_name (take i path)) = Some N' \<and>
               (\<forall>k. k \<noteq> (if i < length path then attr_name (path ! i) else ''_func'') \<longrightarrow>
                    map_of N' k = map_of N k))"
    using add_keeps [OF assms] by blast
next
  have "[] \<notin> set path"
    using add_segments_nonempty [of cls func path] assms by blast
  show "\<forall>seg \<in> set path. seg \<noteq> [] \<and> \<not> isdigit (hd (attr_name seg)) \<and>
            (isdigit (hd seg) \<longrightarrow> attr_name seg = CHR ''_'' # seg)"
  proof (intro ballI conjI impI)
    fix seg assume "seg \<in> set path"
    with \<open>[] \<notin> set path\<close> show "seg \<noteq> []" by auto
    then show "\<not> isdigit (hd (attr_name seg))" by (rule attr_name_not_digit)
  next
    fix seg assume "isdigit (hd seg)"
    then show "attr_name seg = CHR ''_'' # seg" by (simp add: attr_name_def)
  qed
next
  show "''_func'' \<notin> set path \<longrightarrow>
            (\<exists>T. descend self' (map attr_name path) = Some T \<and>
                 map_of T ''_func'' = Some (Func (Some func)))"
    using add_reaches [of path cls func] assms by blast
qed

theorem add_keeps_siblings_witness:
  "add wrapper_class ''g'' [''A'', ''2y''] wrapper_0 = Inr wrapper_1 \<and>
   (\<exists>N'. descend wrapper_1 [''A''] = Some N' \<and> map_of N' ''_1x'' = map_of wrapper_A ''_1x'') \<and>
   attr_name ''2y'' = ''_2y'' \<and>
   (\<exists>T. descend wrapper_1 [''A'', ''_2y''] = Some T \<and> map_of T ''_func'' = Some (Func (Some ''g'')))"
proof -
  have run: "add wrapper_class ''g'' [''A'', ''2y''] wrapper_0 = Inr wrapper_1"
    by code_simp
  have A: "descend wrapper_0 (map attr_name (take 1 [''A'', ''2y''])) = Some wrapper_A"
    by (simp add: wrapper_0_def attr_name_def isdigit_def)
  have names: "map attr_name [''A'', ''2y''] = [''A'', ''_2y'']"
    by (simp add: attr_name_def isdigit_def)
  note inst = add_keeps_siblings [OF run]
  from inst have "\<exists>N'. descend wrapper_1 (map attr_name (take 1 [''A'', ''2y''])) = Some N' \<and>
      (\<forall>k. k \<noteq> (if (1::nat) < length [''A'', ''2y''] then attr_name ([''A'', ''2y''] ! 1) else ''_func'')
         \<longrightarrow> map_of N' k = map_of wrapper_A k)"
    using A by (elim conjE allE [of _ "1::nat"]) simp
  then have sib: "\<exists>N'. descend wrapper_1 [''A''] = Some N' \<and> map_of N' ''_1x'' = map_of wrapper_A ''_1x''"
    using names by auto
  have n2: "attr_name ''2y'' = ''_2y''"
    by (simp add: attr_name_def isdigit_def)
  from inst have "\<exists>T. descend wrapper_1 (map attr_name [''A'', ''2y'']) = Some T \<and>
      map_of T ''_func'' = Some (Func (Some ''g''))"
    by simp
  then have found: "\<exists>T. descend wrapper_1 [''A'', ''_2y''] = Some T \<and>
      map_of T ''_func'' = Some (Func (Some ''g''))"
    by (simp only: names)
  from run sib n2 found show ?thesis by (intro conjI)
qed

section \<open>Flattening\<close>

text \<open>
  C4: the list \<^verbatim>\<open>traverse\<close> returns is claimed to hold every declared node once,
  those of earlier elements included. For the list of the name \<open>a\<close> and the
  machine \<open>X\<close>, under the parent \<open>N\<close>, the node \<open>N.a\<close> is not in the result
  and the nodes of \<open>X\<close> are there twice: line 175 assigns \<^verbatim>\<open>new_states\<close> anew
  and line 200 extends it by the same nodes.
\<close>

theorem traverse_mixed_list:
  "traverse host [Str ''a'', Mach machine_X] None (Some st_N) [] =
     Inr ([set_parent (Some st_N) st_P, set_parent (Some st_N) st_Q,
           set_parent (Some st_N) st_P, set_parent (Some st_N) st_Q],
          host\<lparr>buffered_transitions :=
            [\<lparr>source = ''N.P'', dest = ''N.Q'', conditions = [], before = [], after = [],
              trigger_name = ''go''\<rparr>]\<rparr>)"
  by code_simp

text \<open>
  C5 as stated: a source that is in \<^verbatim>\<open>remap\<close> would be replaced by the remapped
  name. With \<open>P\<close> remapped to \<open>ext\<close>, the transition from \<open>P\<close> is buffered with
  the source \<open>N.P\<close>.
\<close>

theorem remapped_source_is_prefixed:
  "traverse host [Mach machine_X] None (Some st_N) [(''P'', ''ext'')] =
     Inr ([set_parent (Some st_N) st_Q, set_parent (Some st_N) st_Q],
          host\<lparr>buffered_transitions :=
            [\<lparr>source = ''N.P'', dest = ''N.Q'', conditions = [], before = [], after = [],
              trigger_name = ''go''\<rparr>]\<rparr>)"
  by code_simp

lemma split_nonempty: "split c s \<noteq> []"
  by (induction s) (auto split: list.splits)

lemma embedded_trigger_Some: "\<exists>trig'. embedded_trigger (Some p) trig = Inr trig'"
  using split_nonempty [of "CHR ''.''" "name p"]
  by (auto simp: embedded_trigger_def split: list.splits)

lemma embed_transitions_Some:
  "embed_transitions (Some p) remap trig ts buf =
     Inr (buf @ map (embedded_transition p remap trig) ts)"
  by (induction ts arbitrary: buf) simp_all

lemma embed_events_Some:
  "embed_events (Some p) remap evs buf =
     Inr (buf @ concat (map (\<lambda>(trig, ev).
        map (embedded_transition p remap (projr (embedded_trigger (Some p) trig)))
          (concat (map snd (transitions ev)))) evs))"
proof (induction evs arbitrary: buf)
  case Nil
  then show ?case by simp
next
  case (Cons a evs)
  obtain trig ev where a: "a = (trig, ev)" by (cases a)
  obtain trig' where t: "embedded_trigger (Some p) trig = Inr trig'"
    using embedded_trigger_Some by blast
  show ?case
    using Cons.IH by (simp add: a t embed_transitions_Some)
qed

text \<open>
  C5, amended: embedding a machine under the parent \<open>p\<close> buffers one record for
  each transition registered on it, in order. The source of the record is the
  source of the transition prefixed with the qualified name of \<open>p\<close>, whether
  or not it is in \<^verbatim>\<open>remap\<close>. The destination is the remapped name when the
  destination is in \<^verbatim>\<open>remap\<close>, and the destination prefixed with the qualified
  name of \<open>p\<close> otherwise. The callback lists are those of the transition.
\<close>

theorem embedded_transition_names:
  "\<exists>nodes new.
     traverse self [Mach donor] ign (Some p) remap =
       Inr (nodes, self\<lparr>buffered_transitions := buffered_transitions self @ new\<rparr>) \<and>
     map source new = map (\<lambda>t. name p @ ''.'' @ source t) (registered_transitions donor) \<and>
     map dest new =
       map (\<lambda>t. case map_of remap (dest t) of
                   None \<Rightarrow> name p @ ''.'' @ dest t
                 | Some external \<Rightarrow> external) (registered_transitions donor) \<and>
     map conditions new = map conditions (registered_transitions donor) \<and>
     map before new = map before (registered_transitions donor) \<and>
     map after new = map after (registered_transitions donor)"
proof -
  let ?new = "concat (map (\<lambda>(trig, ev).
        map (embedded_transition p remap (projr (embedded_trigger (Some p) trig)))
          (concat (map snd (transitions ev)))) (events donor))"
  let ?emb = "map (set_parent (Some p))
      (filter (\<lambda>s. level s = 0 \<and> name s \<notin> fst ` set remap) (map snd (states donor)))"
  have run: "traverse self [Mach donor] ign (Some p) remap =
       Inr (?emb @ ?emb, self\<lparr>buffered_transitions := buffered_transitions self @ ?new\<rparr>)"
    by (simp add: embed_events_Some Let_def)
  have field: "map f ?new = map g (registered_transitions donor)"
    if "\<And>trig t. f (embedded_transition p remap trig t) = g t" for f :: "buffered \<Rightarrow> 'a" and g
    by (simp add: registered_transitions_def map_concat comp_def case_prod_unfold that)
  show ?thesis
  proof (intro exI conjI)
    show "traverse self [Mach donor] ign (Some p) remap =
       Inr (?emb @ ?emb, self\<lparr>buffered_transitions := buffered_transitions self @ ?new\<rparr>)"
      by (rule run)
  qed (rule field, simp add: embedded_transition_def separator_def split: option.splits)+
qed

theorem embedded_transition_names_witness:
  "\<exists>nodes new.
     traverse host [Mach machine_X] None (Some st_N) [(''Q'', ''ext'')] =
       Inr (nodes, host\<lparr>buffered_transitions := new\<rparr>) \<and>
     map source new = [''N.P''] \<and> map dest new = [''ext'']"
proof -
  from embedded_transition_names [of host machine_X None st_N "[(''Q'', ''ext'')]"]
  obtain nodes new where
    run: "traverse host [Mach machine_X] None (Some st_N) [(''Q'', ''ext'')] =
       Inr (nodes, host\<lparr>buffered_transitions := buffered_transitions host @ new\<rparr>)"
    and src: "map source new =
       map (\<lambda>t. name st_N @ ''.'' @ source t) (registered_transitions machine_X)"
    and dst: "map dest new =
       map (\<lambda>t. case map_of [(''Q'', ''ext'')] (dest t) of
                   None \<Rightarrow> name st_N @ ''.'' @ dest t
                 | Some external \<Rightarrow> external) (registered_transitions machine_X)"
    by blast
  have rt: "registered_transitions machine_X = [go ''P'' ''Q'']"
    by (simp add: registered_transitions_def machine_X_def)
  have "buffered_transitions host = []"
    by (simp add: host_def)
  with run have run': "traverse host [Mach machine_X] None (Some st_N) [(''Q'', ''ext'')] =
       Inr (nodes, host\<lparr>buffered_transitions := new\<rparr>)"
    by (simp only: append_Nil)
  have s: "map source new = [''N.P'']"
    using src by (simp add: rt go_def st_N_def)
  have d: "map dest new = [''ext'']"
    using dst by (simp add: rt go_def st_N_def)
  show ?thesis
    by (intro exI [of _ nodes] exI [of _ new] conjI run' s d)
qed

section \<open>The wildcard source\<close>

lemma keys_update: "fst ` set (AList.update k v al) = insert k (fst ` set al)"
  using dom_update [of k v al] by (simp add: dom_map_of_conv_image_fst)

lemma store_transitions_keys:
  "fst ` set (store_transitions srcs dst conds bef aft tbl) = fst ` set tbl \<union> set srcs"
  by (induction srcs arbitrary: tbl) (auto simp: keys_update)

lemma bind_trigger_events:
  assumes "bind_trigger cls trig self = Inr self'"
  shows "map_of (events self') trig =
     Some (case map_of (events self) trig of
             None \<Rightarrow> \<lparr>ename = trig, transitions = []\<rparr> | Some ev \<Rightarrow> ev)"
proof (cases "trig \<in> fst ` set (events self)")
  case True
  then obtain ev where "map_of (events self) trig = Some ev"
    by (metis domD dom_map_of_conv_image_fst)
  with True assms show ?thesis by (simp add: bind_trigger_def)
next
  case False
  then have none: "map_of (events self) trig = None"
    by (simp add: map_of_eq_None_iff)
  have "events self' = AList.update trig \<lparr>ename = trig, transitions = []\<rparr> (events self)"
    using assms False
    by (auto simp: bind_trigger_def Let_def split: if_splits list.splits option.splits attr.splits sum.splits)
  then show ?thesis using none by (simp add: map_of_update)
qed

lemma add_transition_sources:
  assumes "add_transition cls trig src dst conds bef aft m = Inr m1"
  shows "registered_sources m1 trig = registered_sources m trig \<union> set (expand_source m src)"
proof -
  from assms obtain m' where b: "bind_trigger cls trig m = Inr m'"
    and m1: "m1 = base_add_transition trig (expand_source m src) dst conds bef aft m'"
    by (auto simp: add_transition_def Let_def split: sum.splits)
  show ?thesis
    using bind_trigger_events [OF b]
    by (auto simp: m1 base_add_transition_def registered_sources_def map_of_update
        store_transitions_keys split: option.splits)
qed

lemma traverse_no_machine:
  "(\<forall>s \<in> set sts. \<not> has_machine s) \<Longrightarrow>
     traverse_loop self sts ignore par remap new_states = Inr (nodes, self') \<Longrightarrow> self' = self"
  "(\<forall>s \<in> set sts2. \<not> has_machine s) \<Longrightarrow>
     traverse self2 sts2 ignore_arg par2 remap2 = Inr (nodes2, self2') \<Longrightarrow> self2' = self2"
proof (induction self sts ignore par remap new_states and self2 sts2 ignore_arg par2 remap2
    arbitrary: nodes self' and nodes2 self2' rule: traverse_loop_traverse.induct)
  case (1 self ignore par remap new_states)
  then show ?case by simp
next
  case (2 self state rest ignore par remap new_states)
  then show ?case by (auto split: if_splits)
next
  case (3 self n ign children dremap rest ignore par remap new_states)
  show ?case
  proof (cases children)
    case None
    with 3 show ?thesis by (auto split: if_splits)
  next
    case (Some ch)
    with "3.prems" obtain kids s1 where
      k: "traverse self ch ignore (Some (NestedState n ignore par))
            (case dremap of None \<Rightarrow> [] | Some r \<Rightarrow> r) = Inr (kids, s1)"
      and r: "traverse_loop s1 rest ignore par remap
                 (new_states @ NestedState n ignore par # kids) = Inr (nodes, self')"
      by (auto split: sum.splits)
    from "3.prems"(1) Some have ch: "\<forall>s \<in> set ch. \<not> has_machine s" by simp
    from "3.IH"(2) [OF Some ch k] have "s1 = self" .
    moreover from "3.IH"(3) [OF Some k refl] "3.prems"(1) r have "self' = s1"
      by simp
    ultimately show ?thesis by simp
  qed
next
  case (4 self state rest ignore par remap new_states)
  then show ?case by simp
next
  case (5 self state rest ignore par remap new_states)
  then show ?case by simp
next
  case (6 self sts ignore_arg par remap)
  then show ?case by simp
qed

lemma base_add_states_events: "events (base_add_states ns m) = events m"
  by (induction ns arbitrary: m) simp_all

lemma base_add_states_buffered:
  "buffered_transitions (base_add_states ns m) = buffered_transitions m"
  by (induction ns arbitrary: m) simp_all

lemma add_states_no_machine:
  assumes "\<forall>s \<in> set sts. \<not> has_machine s" "buffered_transitions m = []"
    "add_states cls sts ign m = Inr m2"
  shows "events m2 = events m"
proof -
  from assms(3) obtain nodes m' where t: "traverse m sts ign None [] = Inr (nodes, m')"
    and f: "flush_buffered cls (base_add_states nodes m') = Inr m2"
    by (auto simp: add_states_def split: sum.splits)
  from traverse_no_machine(2) [OF assms(1) t] have "m' = m" .
  with f assms(2) have "m2 = base_add_states nodes m"
    by (simp add: flush_buffered.simps base_add_states_buffered)
  then show ?thesis by (simp add: base_add_states_events)
qed


text \<open>
  C7: \<^verbatim>\<open>add_transition\<close> with the source \<^verbatim>\<open>'*'\<close> registers the transition for the
  qualified names of the states that are in the registry at the call, and for
  no other name. States added afterwards are not included: a later
  \<^verbatim>\<open>add_states\<close> (of specs without an embedded machine, whose transitions would
  be registered under their own sources) leaves the sources of the trigger as
  they are.
\<close>

theorem wildcard_source_at_call_time:
  assumes "add_transition cls trig (SourceStr ''*'') dst conds bef aft m = Inr m1"
  shows "registered_sources m1 trig =
           registered_sources m trig \<union> (\<lambda>x. name (snd x)) ` set (states m) \<and>
         (\<forall>sts ign m2.
            (\<forall>s \<in> set sts. \<not> has_machine s) \<and> buffered_transitions m = [] \<and>
            add_states cls sts ign m1 = Inr m2 \<longrightarrow>
            registered_sources m2 trig = registered_sources m1 trig)"
proof (intro conjI allI impI)
  show "registered_sources m1 trig =
          registered_sources m trig \<union> (\<lambda>x. name (snd x)) ` set (states m)"
    using add_transition_sources [OF assms] by (simp add: expand_source_def)
next
  fix sts ign m2
  assume a: "(\<forall>s \<in> set sts. \<not> has_machine s) \<and> buffered_transitions m = [] \<and>
            add_states cls sts ign m1 = Inr m2"
  have "buffered_transitions m1 = []"
    using add_transition_buffered [OF assms] a by simp
  with a have "events m2 = events m1"
    using add_states_no_machine [of sts m1 cls ign m2] by blast
  then show "registered_sources m2 trig = registered_sources m1 trig"
    by (simp add: registered_sources_def)
qed

theorem wildcard_source_at_call_time_witness:
  "add_transition wrapper_class ''reset'' (SourceStr ''*'') ''A'' [] [] [] (tree_machine st_D) =
     Inr reset_machine \<and>
   registered_sources reset_machine ''reset'' =
     {''A'', ''A.B'', ''A.B.D'', ''A.B.D.F'', ''A.B.E'', ''A.C''} \<and>
   add_states wrapper_class [Str ''Z''] None reset_machine = Inr reset_machine_Z \<and>
   ''Z'' \<in> fst ` set (states reset_machine_Z) \<and>
   registered_sources reset_machine_Z ''reset'' =
     {''A'', ''A.B'', ''A.B.D'', ''A.B.D.F'', ''A.B.E'', ''A.C''}"
proof -
  have run1: "add_transition wrapper_class ''reset'' (SourceStr ''*'') ''A'' [] [] []
      (tree_machine st_D) = Inr reset_machine"
    by code_simp
  have run2: "add_states wrapper_class [Str ''Z''] None reset_machine = Inr reset_machine_Z"
    by code_simp
  note inst = wildcard_source_at_call_time [OF run1]
  have before: "registered_sources (tree_machine st_D) ''reset'' = {}"
    by (simp add: registered_sources_def tree_machine_def)
  have names: "(\<lambda>x. name (snd x)) ` set (states (tree_machine st_D)) =
      {''A'', ''A.B'', ''A.B.D'', ''A.B.D.F'', ''A.B.E'', ''A.C''}"
    by (auto simp: tree_machine_def st_defs separator_def)
  from inst before names have s1: "registered_sources reset_machine ''reset'' =
      {''A'', ''A.B'', ''A.B.D'', ''A.B.D.F'', ''A.B.E'', ''A.C''}"
    by simp
  have later: "(\<forall>s \<in> set [Str ''Z'']. \<not> has_machine s) \<and>
      buffered_transitions (tree_machine st_D) = [] \<and>
      add_states wrapper_class [Str ''Z''] None reset_machine = Inr reset_machine_Z"
    using run2 by (simp add: tree_machine_def)
  have "registered_sources reset_machine_Z ''reset'' =
      registered_sources reset_machine ''reset''"
    by (rule conjunct2 [OF inst, rule_format, OF later])
  with s1 have s2: "registered_sources reset_machine_Z ''reset'' =
      {''A'', ''A.B'', ''A.B.D'', ''A.B.D.F'', ''A.B.E'', ''A.C''}"
    by simp
  have z: "''Z'' \<in> fst ` set (states reset_machine_Z)"
    by (simp add: reset_machine_Z_def)
  from run1 s1 run2 z s2 show ?thesis by (intro conjI)
qed

section \<open>Embedding and the objects of the caller\<close>

text \<open>
  The copy made by \<open>deepcopy\<close> has the structure of the original: a state
  object and its copy denote the same node, and the objects that were in the
  store denote the nodes they did.
\<close>

lemma node_at_copy:
  assumes "node_at h a = Some n"
  shows "node_at (h @ map (shift_obj (length h)) h) (a + length h) = Some n"
proof (rule node_at.raw_induct [where P = "\<lambda>h a n.
     node_at (h @ map (shift_obj (length h)) h) (a + length h) = Some n", OF _ assms])
  fix f h a n
  assume IH: "\<And>h a n. f h a = Some n \<Longrightarrow>
      node_at (h @ map (shift_obj (length h)) h) (a + length h) = Some n"
    and body: "(if a < length h then
        (case obj_parent (h ! a) of
           None \<Rightarrow> Some (NestedState (obj_name (h ! a)) (obj_ignore_invalid_triggers (h ! a)) None)
         | Some p \<Rightarrow>
             Option.bind (f h p)
               (\<lambda>q. Some (NestedState (obj_name (h ! a)) (obj_ignore_invalid_triggers (h ! a))
                             (Some q))))
      else None) = Some n"
  from body have lt: "a < length h" by (simp split: if_splits)
  show "node_at (h @ map (shift_obj (length h)) h) (a + length h) = Some n"
  proof (cases "obj_parent (h ! a)")
    case None
    with body lt show ?thesis
      by (subst node_at.simps) (simp add: nth_append shift_obj_def)
  next
    case (Some p)
    with body lt obtain q where q: "f h p = Some q"
      and n: "n = NestedState (obj_name (h ! a)) (obj_ignore_invalid_triggers (h ! a)) (Some q)"
      by (auto simp: bind_eq_Some_conv)
    from IH [OF q] Some lt n show ?thesis
      by (subst node_at.simps) (simp add: nth_append shift_obj_def)
  qed
qed

lemma node_at_extend:
  assumes "node_at h a = Some n"
  shows "node_at (h @ xs) a = Some n"
proof (rule node_at.raw_induct [where P = "\<lambda>h a n. node_at (h @ xs) a = Some n", OF _ assms])
  fix f h a n
  assume IH: "\<And>h a n. f h a = Some n \<Longrightarrow> node_at (h @ xs) a = Some n"
    and body: "(if a < length h then
        (case obj_parent (h ! a) of
           None \<Rightarrow> Some (NestedState (obj_name (h ! a)) (obj_ignore_invalid_triggers (h ! a)) None)
         | Some p \<Rightarrow>
             Option.bind (f h p)
               (\<lambda>q. Some (NestedState (obj_name (h ! a)) (obj_ignore_invalid_triggers (h ! a))
                             (Some q))))
      else None) = Some n"
  from body have lt: "a < length h" by (simp split: if_splits)
  show "node_at (h @ xs) a = Some n"
  proof (cases "obj_parent (h ! a)")
    case None
    with body lt show ?thesis
      by (subst node_at.simps) (simp add: nth_append)
  next
    case (Some p)
    with body lt obtain q where q: "f h p = Some q"
      and n: "n = NestedState (obj_name (h ! a)) (obj_ignore_invalid_triggers (h ! a)) (Some q)"
      by (auto simp: bind_eq_Some_conv)
    from IH [OF q] Some lt n show ?thesis
      by (subst node_at.simps) (simp add: nth_append)
  qed
qed

lemma deepcopy_nodes:
  assumes "deepcopy st d = (st1, c)" and "node_at (objs st) a = Some n"
  shows "node_at (objs st1) a = Some n \<and> node_at (objs st1) (a + length (objs st)) = Some n"
  using assms node_at_copy [of "objs st" a n] node_at_extend [of "objs st" a n]
  by (auto simp: deepcopy_def Let_def)

text \<open>What the steps of \<open>traverse_store\<close> do to the cells that were in the store.\<close>

lemma frame_refl: "frame par M st st"
  by (simp add: frame_def)

lemma frame_trans:
  assumes "frame par M1 st st1" and "frame par M2 st1 st2"
  shows "frame par (M1 \<union> M2) st st2"
proof -
  have "objs st2 ! a = objs st ! a \<or>
        (a \<in> M1 \<union> M2 \<and> obj_parent (objs st ! a) = None \<and>
         objs st2 ! a = (objs st ! a)\<lparr>obj_parent := par\<rparr>)"
    if a: "a < length (objs st)" for a
  proof -
    from assms(1) a have 1: "objs st1 ! a = objs st ! a \<or>
        (a \<in> M1 \<and> obj_parent (objs st ! a) = None \<and>
         objs st1 ! a = (objs st ! a)\<lparr>obj_parent := par\<rparr>)"
      by (simp add: frame_def)
    from assms(1) a have "a < length (objs st1)" by (simp add: frame_def)
    with assms(2) have 2: "objs st2 ! a = objs st1 ! a \<or>
        (a \<in> M2 \<and> obj_parent (objs st1 ! a) = None \<and>
         objs st2 ! a = (objs st1 ! a)\<lparr>obj_parent := par\<rparr>)"
      by (simp add: frame_def)
    from 1 2 show ?thesis by auto
  qed
  moreover have "dicts st2 ! d = dicts st ! d" if "d < length (dicts st)" for d
    using assms that by (simp add: frame_def)
  ultimately show ?thesis
    using assms by (simp add: frame_def)
qed

lemma frame_mono: "frame par M st st' \<Longrightarrow> M \<subseteq> M' \<Longrightarrow> frame par M' st st'"
  by (auto simp: frame_def)

lemma frame_new: "NestedState_new st n i q = (st', a) \<Longrightarrow> frame par {} st st'"
  by (auto simp: NestedState_new_def frame_def nth_append)

lemma frame_copy_dict:
  "d < length (dicts st) \<Longrightarrow> copy_dict st d i q = (st', c) \<Longrightarrow> frame par {} st st'"
  by (auto simp: copy_dict_def deepcopy_def Let_def frame_def nth_append nth_list_update)

lemma frame_inside:
  assumes "frame par {} st st1" and "frame q M st1 st2"
    and "\<forall>a \<in> M. length (objs st) \<le> a"
  shows "frame par {} st st2"
proof -
  have "objs st2 ! a = objs st ! a" if a: "a < length (objs st)" for a
  proof -
    from assms(1) a have "objs st1 ! a = objs st ! a" "a < length (objs st1)"
      by (simp_all add: frame_def)
    moreover from assms(3) a have "a \<notin> M" by auto
    ultimately show ?thesis using assms(2) by (auto simp: frame_def)
  qed
  moreover have "dicts st2 ! d = dicts st ! d" if "d < length (dicts st)" for d
    using assms(1,2) that by (simp add: frame_def)
  ultimately show ?thesis
    using assms(1,2) by (simp add: frame_def)
qed

lemma reparent_length: "length (reparent par ss h) = length h"
  by (induction ss arbitrary: h) simp_all

lemma reparent_nth:
  "a < length h \<Longrightarrow>
     reparent par ss h ! a = (if a \<in> set ss then (h ! a)\<lparr>obj_parent := par\<rparr> else h ! a)"
proof (induction ss arbitrary: h)
  case Nil
  then show ?case by simp
next
  case (Cons s ss)
  then show ?case
    by (cases "a = s") (simp_all add: nth_list_update)
qed

lemma node_at_root:
  assumes "node_at h a = Some n" and "level n = 0"
  shows "a < length h \<and> obj_parent (h ! a) = None \<and>
         n = NestedState (obj_name (h ! a)) (obj_ignore_invalid_triggers (h ! a)) None"
  using assms
  by (subst (asm) node_at.simps) (auto split: if_splits option.splits simp: bind_eq_Some_conv)


lemma select_states_sound:
  "select_states h remap ss = Some sel \<Longrightarrow> a \<in> set sel \<Longrightarrow>
     a \<in> set ss \<and> (\<exists>n. node_at h a = Some n \<and> level n = 0 \<and> name n \<notin> fst ` set remap)"
  by (induction ss arbitrary: sel) (auto split: option.splits if_splits)

lemma select_states_root:
  assumes "select_states h remap ss = Some sel" and "a \<in> set sel"
  shows "a \<in> set ss \<and> a < length h \<and> obj_parent (h ! a) = None \<and>
         node_at h a = Some (NestedState (obj_name (h ! a)) (obj_ignore_invalid_triggers (h ! a)) None)"
proof -
  from select_states_sound [OF assms] obtain n
    where "a \<in> set ss" "node_at h a = Some n" "level n = 0" by blast
  with node_at_root [of h a n] show ?thesis by simp
qed

lemma frame_reparent:
  assumes "select_states (objs st) remap donor = Some sel"
  shows "frame par (set donor) st (st\<lparr>objs := reparent par sel (objs st)\<rparr>)"
  using select_states_root [OF assms]
  by (auto simp: frame_def reparent_length reparent_nth)


lemma machine_states_shift:
  "a \<in> set (machine_states (shift_spec no nd s)) \<Longrightarrow> no \<le> a"
  by (cases s) (auto simp: shift_spec_def)

lemma copy_dict_children:
  assumes "d < length (dicts st)" and "copy_dict st d i q = (st1, state)"
    and "key_children (dicts st1 ! state) = Some children"
  shows "\<forall>a \<in> \<Union> (set ` machine_states ` set children). length (objs st) \<le> a"
proof -
  from assms(1,2) have "key_children (dicts st1 ! state) =
      map_option (map (shift_spec (length (objs st)) (length (dicts st)))) (key_children (dicts st ! d))"
    by (auto simp: copy_dict_def deepcopy_def Let_def nth_append shift_dict_def)
  with assms(3) obtain ch where "children = map (shift_spec (length (objs st)) (length (dicts st))) ch"
    by auto
  then show ?thesis by (auto dest: machine_states_shift)
qed

lemma traverse_store_frame:
  "traverse_store_loop depth self st sts ignore par remap new_states = Some (Inr (r, self', st'))
     \<Longrightarrow> frame par (\<Union> (set ` machine_states ` set sts)) st st'"
  "traverse_store depth self st sts ignore_arg par remap = Some (Inr (r, self', st'))
     \<Longrightarrow> frame par (\<Union> (set ` machine_states ` set sts)) st st'"
proof (induction depth self st sts ignore par remap new_states
         and depth self st sts ignore_arg par remap
       arbitrary: r self' st' and r self' st'
       rule: traverse_store_loop_traverse_store.induct)
  case (1 depth self st ignore par remap new_states)
  then show ?case by (simp add: frame_refl)
next
  case (2 depth self st state rest ignore par remap new_states)
  show ?case
  proof (cases "state \<in> fst ` set remap")
    case True
    with 2 show ?thesis by simp
  next
    case False
    obtain st1 new where new: "NestedState_new st state ignore par = (st1, new)"
      by (cases "NestedState_new st state ignore par")
    from 2(3) False new
    have "traverse_store_loop depth self st1 rest ignore par remap (new_states @ [new]) =
            Some (Inr (r, self', st'))"
      by simp
    from 2(2) [OF False new [symmetric] this]
    have "frame par (\<Union> (set ` machine_states ` set rest)) st1 st'" .
    with frame_trans [OF frame_new [OF new, of par]] show ?thesis
      by fastforce
  qed
next
  case (3 depth self st d rest ignore par remap new_states)
  from 3(4) have d: "d < length (dicts st)"
    by (simp split: if_splits)
  obtain st1 state where cd: "copy_dict st d ignore par = (st1, state)"
    by (cases "copy_dict st d ignore par")
  note f1 = frame_copy_dict [OF d cd, of par]
  show ?case
  proof (cases "key_children (dicts st1 ! state)")
    case None
    obtain st2 new where new:
      "NestedState_new st1 (key_name (dicts st1 ! state))
         (case key_ignore_invalid_triggers (dicts st1 ! state) of None \<Rightarrow> None | Some v \<Rightarrow> v)
         (case key_parent (dicts st1 ! state) of None \<Rightarrow> None | Some v \<Rightarrow> v) = (st2, new)"
      by (cases "NestedState_new st1 (key_name (dicts st1 ! state))
         (case key_ignore_invalid_triggers (dicts st1 ! state) of None \<Rightarrow> None | Some v \<Rightarrow> v)
         (case key_parent (dicts st1 ! state) of None \<Rightarrow> None | Some v \<Rightarrow> v)")
    from 3(4) d cd None new have nr: "\<not> key_remap (dicts st1 ! state) \<noteq> None"
      and run: "traverse_store_loop depth self st2 rest ignore par remap (new_states @ [new]) =
                  Some (Inr (r, self', st'))"
      by (auto split: if_splits)
    from 3(1) [OF d cd [symmetric] None nr new [symmetric] run]
    have "frame par (\<Union> (set ` machine_states ` set rest)) st2 st'" .
    with frame_trans [OF frame_trans [OF f1 frame_new [OF new, of par]]] show ?thesis
      by fastforce
  next
    case (Some children)
    obtain st2 p where new:
      "NestedState_new st1 (key_name (dicts st1 ! state)) ignore par = (st2, p)"
      by (cases "NestedState_new st1 (key_name (dicts st1 ! state)) ignore par")
    from 3(4) d cd Some new obtain depth' p_children self1 st3
      where depth: "depth = Suc depth'"
        and inner: "traverse_store depth' self st2 children ignore (Some p)
                      (case key_remap (dicts st1 ! state) of None \<Rightarrow> [] | Some r \<Rightarrow> r) =
                    Some (Inr (p_children, self1, st3))"
        and run: "traverse_store_loop depth self1 st3 rest ignore par remap
                    (new_states @ p # p_children) = Some (Inr (r, self', st'))"
      by (auto split: nat.splits option.splits sum.splits)
    from 3(2) [OF d cd [symmetric] Some new [symmetric] depth inner]
    have fin: "frame (Some p) (\<Union> (set ` machine_states ` set children)) st2 st3" .
    from 3(3) [OF d cd [symmetric] Some new [symmetric] depth inner refl refl refl run]
    have frest: "frame par (\<Union> (set ` machine_states ` set rest)) st3 st'" .
    from frame_trans [OF f1 frame_new [OF new, of par]]
    have f2: "frame par {} st st2" by simp
    from frame_inside [OF f2 fin copy_dict_children [OF d cd Some]]
    have "frame par {} st st3" .
    from frame_trans [OF this frest] show ?thesis
      by (simp add: frame_mono)
  qed
next
  case (4 depth self st donor evs rest ignore par remap new_states)
  from 4(2) obtain sel buf
    where sel: "select_states (objs st) remap donor = Some sel"
      and ev: "embed_events_at (reparent par sel (objs st)) par remap evs
                 (buffered_transitions self) = Some (Inr buf)"
      and run: "traverse_store_loop depth (self\<lparr>buffered_transitions := buf\<rparr>)
                  (st\<lparr>objs := reparent par sel (objs st)\<rparr>) rest ignore par remap (sel @ sel) =
                Some (Inr (r, self', st'))"
    by (auto split: option.splits sum.splits)
  from 4(1) [OF sel ev refl run]
  have "frame par (\<Union> (set ` machine_states ` set rest))
          (st\<lparr>objs := reparent par sel (objs st)\<rparr>) st'" .
  from frame_trans [OF frame_reparent [OF sel, of par] this] show ?case
    by simp
next
  case (5 depth self st state rest ignore par remap new_states)
  then show ?case by simp
next
  case (6 depth self st sts ignore_arg par remap)
  then show ?case by simp
qed


text \<open>
  With no parent, as \<^verbatim>\<open>add_states\<close> calls \<^verbatim>\<open>traverse\<close> (line 205), no state object
  that was in the store is changed.
\<close>

lemma traverse_store_no_parent:
  assumes "traverse_store depth self st sts ignore_arg None remap =
             Some (Inr (new_states, self', st'))"
    and "a < length (objs st)"
  shows "objs st' ! a = objs st ! a"
proof -
  from traverse_store_frame(2) [OF assms(1)] assms(2)
  have "objs st' ! a = objs st ! a \<or>
        (obj_parent (objs st ! a) = None \<and> objs st' ! a = (objs st ! a)\<lparr>obj_parent := None\<rparr>)"
    by (auto simp: frame_def)
  then show ?thesis by auto
qed

text \<open>
  For the scenario of the spec the two models of \<^verbatim>\<open>traverse\<close> agree: the model on
  values returns the nodes that the addresses returned by the model on the
  store denote, and buffers the same record.
\<close>

lemma traverse_store_agrees:
  "traverse host [Dict ''N'' None (Some [Mach machine_X]) None] None None [] =
     Inr (map (\<lambda>a. the (node_at (objs store_N') a)) [4, 2, 3, 2, 3],
          host\<lparr>buffered_transitions := [buffered_go]\<rparr>)"
  by code_simp





end
